theory Spec2Isabelle
  imports Complex_Main "HOL-Library.AList" "HOL-Library.Char_ord" "HOL-Library.List_Lexorder"
begin

section \<open>Python values used by tracking.py\<close>

text \<open>
  The exceptions the modelled code can raise: \<open>max\<close> of an empty sequence
  (ValueError), a dictionary lookup of a missing key (KeyError) and \<open>pop(0)\<close> on an
  empty list (IndexError).
\<close>

datatype py_error = ValueError | KeyError | IndexError

text \<open>
  Floats are modelled as exact reals, so every coordinate of this model is finite.
  \<open>int(x)\<close> on a finite float truncates toward zero; on NaN or an infinity it raises
  (ValueError, OverflowError), which is outside this model.
\<close>

definition py_int :: "real \<Rightarrow> int" where
  "py_int r = (if 0 \<le> r then \<lfloor>r\<rfloor> else \<lceil>r\<rceil>)"

text \<open>
  Slicing \<open>xs[a:b]\<close> of Python lists and NumPy arrays (step 1): a negative bound
  counts from the end, and every bound is clipped to \<open>0 .. len(xs)\<close>.
\<close>

definition slice_index :: "int \<Rightarrow> nat \<Rightarrow> nat" where
  "slice_index i n = (if i < 0 then nat (max (i + int n) 0) else min (nat i) n)"

definition py_slice :: "int \<Rightarrow> int \<Rightarrow> 'a list \<Rightarrow> 'a list" where
  "py_slice a b xs =
     (let lo = slice_index a (length xs); hi = slice_index b (length xs)
      in take (hi - lo) (drop lo xs))"

text \<open>
  \<open>max(xs, key=f)\<close>: ValueError on an empty sequence; otherwise the first element
  whose key is maximal (the running best is replaced only by a strictly larger key).
\<close>

definition py_max :: "('a \<Rightarrow> nat) \<Rightarrow> 'a list \<Rightarrow> py_error + 'a" where
  "py_max key xs =
     (case xs of
        [] \<Rightarrow> Inl ValueError
      | x # rest \<Rightarrow> Inr (fold (\<lambda>y best. if key best < key y then y else best) rest x))"

subsection \<open>The wall clock\<close>

text \<open>
  A reading of \<open>datetime.now()\<close>: a naive local date and time. Python compares two
  such values field by field, from the year down to the microsecond.
\<close>

record datetime =
  year :: nat
  month :: nat
  day :: nat
  hour :: nat
  minute :: nat
  second :: nat
  microsecond :: nat

definition dt_le :: "datetime \<Rightarrow> datetime \<Rightarrow> bool" where
  "dt_le a b =
     ([year a, month a, day a, hour a, minute a, second a, microsecond a]
        \<le> [year b, month b, day b, hour b, minute b, second b, microsecond b])"

definition digit :: "nat \<Rightarrow> char" where
  "digit n = ''0123456789'' ! (n mod 10)"

definition pad2 :: "nat \<Rightarrow> string" where
  "pad2 n = [digit (n div 10), digit n]"

definition pad4 :: "nat \<Rightarrow> string" where
  "pad4 n = [digit (n div 1000), digit (n div 100), digit (n div 10), digit n]"

text \<open>
  \<open>strftime("%d.%m.%Y %H:%M:%S")\<close>: two digits per field, four for the year (a year of
  \<open>datetime.now()\<close> has four digits); the microsecond is not printed.
\<close>

definition strftime :: "datetime \<Rightarrow> string" where
  "strftime d =
     pad2 (day d) @ ''.'' @ pad2 (month d) @ ''.'' @ pad4 (year d) @ '' '' @
     pad2 (hour d) @ '':'' @ pad2 (minute d) @ '':'' @ pad2 (second d)"

section \<open>TrackedObject\<close>

text \<open>
  An image is a list of pixel rows (\<open>shape[:2] = (height, width)\<close>); a pixel is a
  number. \<open>predicted_types\<close> is a \<open>defaultdict(int)\<close>: an association list in
  insertion order, as Python dictionaries iterate.
\<close>

type_synonym image = "nat list list"

type_synonym point = "real \<times> real"

record TrackedObject =
  tracked_points :: "point list"
  predicted_types :: "(string \<times> nat) list"
  first_detection :: "string option"
  last_detection :: "string option"
  cropped_frame :: "image option"

definition TrackedObject_init :: TrackedObject where
  "TrackedObject_init =
     \<lparr>tracked_points = [], predicted_types = [], first_detection = None,
      last_detection = None, cropped_frame = None\<rparr>"

text \<open>
  \<open>detect\<close>: the clock is the sequence \<open>clk\<close> of readings and \<open>n\<close> counts the
  readings taken so far; the first call on a record reads the clock twice.
\<close>

definition detect :: "(nat \<Rightarrow> datetime) \<Rightarrow> nat \<Rightarrow> TrackedObject \<Rightarrow> TrackedObject \<times> nat" where
  "detect clk n t =
     (if first_detection t = None
      then (t\<lparr>first_detection := Some (strftime (clk n)),
              last_detection := Some (strftime (clk (Suc n)))\<rparr>, Suc (Suc n))
      else (t\<lparr>last_detection := Some (strftime (clk n))\<rparr>, Suc n))"

text \<open>\<open>d[x]\<close> on a \<open>defaultdict(int)\<close>, read only: a missing key counts 0.\<close>

definition dict_count :: "(string \<times> nat) list \<Rightarrow> string \<Rightarrow> nat" where
  "dict_count d x = (case map_of d x of None \<Rightarrow> 0 | Some c \<Rightarrow> c)"

text \<open>The property \<open>type\<close>.\<close>

definition type :: "TrackedObject \<Rightarrow> py_error + string" where
  "type t = py_max (dict_count (predicted_types t)) (map fst (predicted_types t))"

text \<open>
  The setter of \<open>points\<close>, with the class attribute \<open>MAX_POINTS\<close> as a parameter
  (\<open>set_max_points_count\<close> assigns it). \<open>pop(0)\<close> raises on an empty list.
\<close>

definition points_setter :: "int \<Rightarrow> TrackedObject \<Rightarrow> point \<Rightarrow> py_error + TrackedObject" where
  "points_setter max_points t v =
     (if max_points < int (length (tracked_points t))
      then (case tracked_points t of
              [] \<Rightarrow> Inl IndexError
            | _ # rest \<Rightarrow> Inr (t\<lparr>tracked_points := rest @ [v]\<rparr>))
      else Inr (t\<lparr>tracked_points := tracked_points t @ [v]\<rparr>))"

text \<open>\<open>__len__\<close>.\<close>

definition len :: "TrackedObject \<Rightarrow> nat" where
  "len t = (if tracked_points t = [] then 0 else sum_list (map snd (predicted_types t)))"

text \<open>\<open>d[k] += 1\<close> on a \<open>defaultdict(int)\<close>: a new key is appended with count 1.\<close>

fun dict_incr :: "(string \<times> nat) list \<Rightarrow> string \<Rightarrow> (string \<times> nat) list" where
  "dict_incr [] k = [(k, 1)]"
| "dict_incr ((k', c) # d) k = (if k' = k then (k', c + 1) # d else (k', c) # dict_incr d k)"

section \<open>Tracker\<close>

text \<open>
  The class attributes that the code reads: \<open>TrackedObject.MAX_POINTS\<close> and
  \<open>Tracker.FRAMES_COUNT\<close>.
\<close>

record config =
  MAX_POINTS :: int
  FRAMES_COUNT :: int

definition default_config :: config where
  "default_config = \<lparr>MAX_POINTS = 90, FRAMES_COUNT = 10\<rparr>"

text \<open>
  What \<open>model.track\<close> returns for a frame, as far as the code reads it: the boxes
  (\<open>xywh\<close> in pixels, \<open>xywhn\<close> normalised, \<open>cls\<close> the class index), the track
  ids (\<open>boxes.id\<close>, which may be None) and the dictionary \<open>names\<close>. The
  coordinates are finite floats.
\<close>

record box =
  xywh :: "real \<times> real \<times> real \<times> real"
  xywhn :: "real \<times> real \<times> real \<times> real"
  cls :: int

record results =
  boxes :: "box list"
  boxes_id :: "int list option"
  names :: "(int \<times> string) list"

text \<open>
  The tracker's state: \<open>tracked_objects\<close>, a \<open>defaultdict\<close> whose factory is
  \<open>TrackedObject()\<close>, and the number of clock readings taken so far.
\<close>

type_synonym store = "(int \<times> TrackedObject) list"

record world =
  tracked_objects :: store
  now_calls :: nat

definition Tracker_init :: world where
  "Tracker_init = \<lparr>tracked_objects = [], now_calls = 0\<rparr>"

text \<open>\<open>self.tracked_objects[k]\<close>: a missing key is inserted with a fresh record.\<close>

definition getitem :: "store \<Rightarrow> int \<Rightarrow> TrackedObject \<times> store" where
  "getitem s k =
     (case map_of s k of
        Some t \<Rightarrow> (t, s)
      | None \<Rightarrow> (TrackedObject_init, s @ [(k, TrackedObject_init)]))"

text \<open>\<open>crop_image_with_bbox\<close>: the rectangle \<open>(x, y, w, h)\<close>, then the slice.\<close>

definition image_width :: "image \<Rightarrow> nat" where
  "image_width img = (case img of [] \<Rightarrow> 0 | row # _ \<Rightarrow> length row)"

definition crop_rect :: "nat \<Rightarrow> nat \<Rightarrow> real \<times> real \<times> real \<times> real \<Rightarrow> int \<times> int \<times> int \<times> int" where
  "crop_rect original_height original_width bbox =
     (case bbox of (xc, yc, wn, hn) \<Rightarrow>
        let x_center = py_int (xc * real original_width);
            y_center = py_int (yc * real original_height);
            w = py_int (wn * real original_width);
            h = py_int (hn * real original_height);
            x = py_int (real_of_int x_center - real_of_int w / 2);
            y = py_int (real_of_int y_center - real_of_int h / 2)
        in (x, y, w, h))"

definition crop_image_with_bbox :: "image \<Rightarrow> real \<times> real \<times> real \<times> real \<Rightarrow> image" where
  "crop_image_with_bbox img bbox =
     (case crop_rect (length img) (image_width img) bbox of (x, y, w, h) \<Rightarrow>
        map (py_slice x (x + w)) (py_slice y (y + h) img))"

text \<open>
  One pass through the body of the loop of \<open>track_next_frame\<close>, on the record
  fetched for the track id. An exception leaves the record as mutated so far. The drawing
  calls (\<open>cv2.polylines\<close>, \<open>cv2.imshow\<close>) read the record and do not change it; they
  are left out.
\<close>

definition observe ::
  "config \<Rightarrow> (nat \<Rightarrow> datetime) \<Rightarrow> nat \<Rightarrow> image \<Rightarrow> (int \<times> string) list \<Rightarrow> box \<Rightarrow> TrackedObject
     \<Rightarrow> py_error option \<times> TrackedObject \<times> nat" where
  "observe cfg clk n frame nms b track =
     (let (x, y, w, h) = xywh b;
          (track1, n1) = detect clk n track;
          track2 =
            (if cropped_frame track1 = None \<and> FRAMES_COUNT cfg < int (len track1)
             then track1\<lparr>cropped_frame := Some (crop_image_with_bbox frame (xywhn b))\<rparr>
             else track1)
      in (case map_of nms (cls b) of
            None \<Rightarrow> (Some KeyError, track2, n1)
          | Some label \<Rightarrow>
              (let track3 = track2\<lparr>predicted_types := dict_incr (predicted_types track2) label\<rparr>
               in (case points_setter (MAX_POINTS cfg) track3 (x, y) of
                     Inl e \<Rightarrow> (Some e, track3, n1)
                   | Inr track4 \<Rightarrow> (None, track4, n1)))))"

definition process_event ::
  "config \<Rightarrow> (nat \<Rightarrow> datetime) \<Rightarrow> image \<Rightarrow> (int \<times> string) list \<Rightarrow> box \<times> int \<Rightarrow> world
     \<Rightarrow> py_error option \<times> world" where
  "process_event cfg clk frame nms ev w =
     (let (b, track_id) = ev;
          (track, s1) = getitem (tracked_objects w) track_id;
          (exc, track', n') = observe cfg clk (now_calls w) frame nms b track
      in (exc, \<lparr>tracked_objects = AList.update track_id track' s1, now_calls = n'\<rparr>))"

fun process_events ::
  "config \<Rightarrow> (nat \<Rightarrow> datetime) \<Rightarrow> image \<Rightarrow> (int \<times> string) list \<Rightarrow> (box \<times> int) list \<Rightarrow> world
     \<Rightarrow> py_error option \<times> world" where
  "process_events cfg clk frame nms [] w = (None, w)"
| "process_events cfg clk frame nms (ev # evs) w =
     (case process_event cfg clk frame nms ev w of
        (Some e, w') \<Rightarrow> (Some e, w')
      | (None, w') \<Rightarrow> process_events cfg clk frame nms evs w')"

text \<open>
  \<open>track_next_frame\<close>, from the result of \<open>model.track\<close> on. The loop runs over
  \<open>zip(boxes, track_ids, names)\<close>, which stops with the shortest of the three.
\<close>

definition zipped :: "results \<Rightarrow> int list \<Rightarrow> (box \<times> int) list" where
  "zipped res track_ids =
     map (\<lambda>(b, track_id, name). (b, track_id)) (zip (boxes res) (zip track_ids (names res)))"

definition track_next_frame ::
  "config \<Rightarrow> (nat \<Rightarrow> datetime) \<Rightarrow> image \<Rightarrow> results \<Rightarrow> world \<Rightarrow> py_error option \<times> world" where
  "track_next_frame cfg clk frame res w =
     (case boxes_id res of
        None \<Rightarrow> (None, w)
      | Some track_ids \<Rightarrow> process_events cfg clk frame (names res) (zipped res track_ids) w)"

text \<open>
  \<open>get_objects\<close>: the keys are filtered by \<open>len(self.tracked_objects.get(x))\<close>
  (\<open>x\<close> is a key, so \<open>get\<close> finds it), then the comprehension reads
  \<open>self.tracked_objects[key]\<close>. The result is the returned dictionary and the store
  after the call.
\<close>

definition get_objects :: "config \<Rightarrow> store \<Rightarrow> store \<times> store" where
  "get_objects cfg s =
     (let keys = filter (\<lambda>x. case map_of s x of
                                 Some t \<Rightarrow> FRAMES_COUNT cfg < int (len t)
                               | None \<Rightarrow> False) (map fst s)
      in fold (\<lambda>key (out, s'). case getitem s' key of (t, s'') \<Rightarrow> (AList.update key t out, s''))
           keys ([], s))"

text \<open>A client's calls on a tracker, run in order; a raised exception does not end the run.\<close>

datatype call = Frame image results | Query

fun step :: "config \<Rightarrow> (nat \<Rightarrow> datetime) \<Rightarrow> call \<Rightarrow> world \<Rightarrow> world" where
  "step cfg clk (Frame frame res) w = snd (track_next_frame cfg clk frame res w)"
| "step cfg clk Query w = w\<lparr>tracked_objects := snd (get_objects cfg (tracked_objects w))\<rparr>"

definition run :: "config \<Rightarrow> (nat \<Rightarrow> datetime) \<Rightarrow> call list \<Rightarrow> world" where
  "run cfg clk calls = fold (step cfg clk) calls Tracker_init"

section \<open>Notions used to state the properties\<close>

text \<open>The ledger after the labels \<open>ls\<close> were voted for, in this order, on a fresh record.\<close>

definition votes_of :: "string list \<Rightarrow> (string \<times> nat) list" where
  "votes_of ls = fold (\<lambda>l d. dict_incr d l) ls []"

text \<open>The position at which \<open>l\<close> first occurs in \<open>ls\<close>.\<close>

definition first_pos :: "'a \<Rightarrow> 'a list \<Rightarrow> nat" where
  "first_pos l ls = length (takeWhile (\<lambda>x. x \<noteq> l) ls)"

text \<open>Every stored record satisfies \<open>P\<close>, which may mention the number of clock readings.\<close>

definition records_sat :: "(nat \<Rightarrow> TrackedObject \<Rightarrow> bool) \<Rightarrow> world \<Rightarrow> bool" where
  "records_sat P w = (\<forall>k t. map_of (tracked_objects w) k = Some t \<longrightarrow> P (now_calls w) t)"

text \<open>The observation count of an identity: \<open>len\<close> of its record, 0 without a record.\<close>

definition obs_count :: "world \<Rightarrow> int \<Rightarrow> nat" where
  "obs_count w k = (case map_of (tracked_objects w) k of None \<Rightarrow> 0 | Some t \<Rightarrow> len t)"

subsection \<open>Concrete inputs\<close>

text \<open>
  A clock that advances one microsecond per reading, a frame of 2 by 2 pixels, and the
  result of the detector for one car with track id 1.
\<close>

definition clock0 :: "nat \<Rightarrow> datetime" where
  "clock0 n = \<lparr>year = 2024, month = 10, day = 27, hour = 12, minute = 0, second = 0,
               microsecond = n\<rparr>"

text \<open>
  A clock whose readings print differently: it advances one second per reading during the
  first minute, and by microseconds after that.
\<close>

definition second_clock :: "nat \<Rightarrow> datetime" where
  "second_clock n = \<lparr>year = 2024, month = 10, day = 27, hour = 12, minute = 0,
                     second = min n 59, microsecond = n - 59\<rparr>"

definition frame0 :: image where
  "frame0 = [[1, 2], [3, 4]]"

definition car_box :: box where
  "car_box = \<lparr>xywh = (1, 1, 2, 2), xywhn = (0.5, 0.5, 1, 1), cls = 2\<rparr>"

definition coco_names :: "(int \<times> string) list" where
  "coco_names = [(0, ''person''), (2, ''car''), (7, ''truck'')]"

definition car_results :: results where
  "car_results = \<lparr>boxes = [car_box], boxes_id = Some [1], names = coco_names\<rparr>"

text \<open>
  A clock over the end of daylight saving time: two readings at 02:59:59, then the local
  time is set back by one hour.
\<close>

definition dst_clock :: "nat \<Rightarrow> datetime" where
  "dst_clock n =
     (if n < 2
      then \<lparr>year = 2024, month = 10, day = 27, hour = 2, minute = 59, second = 59,
            microsecond = n\<rparr>
      else \<lparr>year = 2024, month = 10, day = 27, hour = 2, minute = 0, second = 0,
            microsecond = n\<rparr>)"

text \<open>A detection with a box outside the unit square and an empty class label.\<close>

definition bad_box :: box where
  "bad_box = \<lparr>xywh = (- 5, 700, 0, 0), xywhn = (3 / 2, - (1 / 5), 3, 3), cls = 9\<rparr>"

definition bad_results :: results where
  "bad_results = \<lparr>boxes = [bad_box], boxes_id = Some [4], names = [(9, [])]\<rparr>"

section \<open>The store and the event loop\<close>

lemma getitem_fst: "fst (getitem s k) = (case map_of s k of None \<Rightarrow> TrackedObject_init | Some t \<Rightarrow> t)"
  by (simp add: getitem_def split: option.splits)

lemma getitem_present: "map_of s k = Some t \<Longrightarrow> getitem s k = (t, s)"
  by (simp add: getitem_def)

lemma getitem_absent:
  "map_of s k = None \<Longrightarrow> getitem s k = (TrackedObject_init, s @ [(k, TrackedObject_init)])"
  by (simp add: getitem_def)

lemma update_getitem_map:
  "map_of (AList.update k v (snd (getitem s k))) = (map_of s)(k \<mapsto> v)"
  by (auto simp: getitem_def update_conv' fun_eq_iff map_add_def split: option.splits)

lemma update_getitem_distinct:
  "distinct (map fst s) \<Longrightarrow> distinct (map fst (AList.update k v (snd (getitem s k))))"
  by (rule distinct_update) (auto simp: getitem_def map_of_eq_None_iff split: option.splits)

lemma observe_now:
  "observe cfg clk n frame nms b t = (exc, t', n') \<Longrightarrow> n < n'"
  by (auto simp: observe_def detect_def Let_def split: prod.splits option.splits sum.splits if_splits)

lemma process_event_map:
  assumes "process_event cfg clk frame nms (b, k) w = (exc, w')"
  shows "\<exists>t'. observe cfg clk (now_calls w) frame nms b (fst (getitem (tracked_objects w) k))
                = (exc, t', now_calls w')
             \<and> map_of (tracked_objects w') = (map_of (tracked_objects w))(k \<mapsto> t')"
proof -
  obtain t s1 where g: "getitem (tracked_objects w) k = (t, s1)" by fastforce
  obtain e t' n' where ob: "observe cfg clk (now_calls w) frame nms b t = (e, t', n')"
    using prod_cases3 by blast
  from assms g ob have "exc = e" and w': "w' = \<lparr>tracked_objects = AList.update k t' s1, now_calls = n'\<rparr>"
    by (simp_all add: process_event_def)
  have "map_of (AList.update k t' s1) = (map_of (tracked_objects w))(k \<mapsto> t')"
    using update_getitem_map[of k t' "tracked_objects w"] g by simp
  with g ob \<open>exc = e\<close> w' show ?thesis by simp
qed

lemma process_event_distinct:
  assumes "process_event cfg clk frame nms ev w = (exc, w')" and "distinct (map fst (tracked_objects w))"
  shows "distinct (map fst (tracked_objects w'))"
proof -
  obtain b k where ev: "ev = (b, k)" by fastforce
  obtain t s1 where g: "getitem (tracked_objects w) k = (t, s1)" by fastforce
  obtain e t' n' where ob: "observe cfg clk (now_calls w) frame nms b t = (e, t', n')"
    using prod_cases3 by blast
  from assms(1) ev g ob have "tracked_objects w' = AList.update k t' s1"
    by (auto simp: process_event_def)
  then show ?thesis using update_getitem_distinct[OF assms(2), of k t'] g by simp
qed

lemma get_objects_fold:
  assumes "\<forall>key\<in>set ks. map_of s key \<noteq> None"
  shows "snd (fold (\<lambda>key (out, s'). case getitem s' key of (t, s'') \<Rightarrow> (AList.update key t out, s''))
           ks (out, s)) = s"
  using assms
proof (induction ks arbitrary: out)
  case Nil
  show ?case by simp
next
  case (Cons key ks)
  then obtain t where "map_of s key = Some t" by auto
  then have "getitem s key = (t, s)" by (rule getitem_present)
  with Cons show ?case by simp
qed

lemma get_objects_store: "snd (get_objects cfg s) = s"
  unfolding get_objects_def Let_def
  by (rule get_objects_fold) (auto split: option.splits)

lemma step_Query: "step cfg clk Query w = w"
  by (simp add: get_objects_store)

lemma records_sat_process_event:
  assumes obs: "\<And>n frame nms b t exc t' n'.
            P n t \<or> t = TrackedObject_init \<Longrightarrow> observe cfg clk n frame nms b t = (exc, t', n') \<Longrightarrow> P n' t'"
    and mono: "\<And>n n' t. P n t \<Longrightarrow> n \<le> n' \<Longrightarrow> P n' t"
    and ev: "process_event cfg clk frame nms ev w = (exc, w')"
    and sat: "records_sat P w"
  shows "records_sat P w'"
proof -
  obtain b k where e: "ev = (b, k)" by fastforce
  from process_event_map[OF ev[unfolded e]] obtain t' where
    ob: "observe cfg clk (now_calls w) frame nms b (fst (getitem (tracked_objects w) k)) = (exc, t', now_calls w')"
    and m: "map_of (tracked_objects w') = (map_of (tracked_objects w))(k \<mapsto> t')" by blast
  have old: "P (now_calls w) (fst (getitem (tracked_objects w) k)) \<or> fst (getitem (tracked_objects w) k) = TrackedObject_init"
    using sat by (auto simp: getitem_fst records_sat_def split: option.splits)
  have new: "P (now_calls w') t'" by (rule obs[OF old ob])
  have le: "now_calls w \<le> now_calls w'" using observe_now[OF ob] by simp
  show ?thesis
    unfolding records_sat_def
  proof (intro allI impI)
    fix j t assume "map_of (tracked_objects w') j = Some t"
    then have "(j = k \<and> t = t') \<or> map_of (tracked_objects w) j = Some t"
      by (auto simp: m split: if_splits)
    then show "P (now_calls w') t"
      using new sat mono[OF _ le] by (auto simp: records_sat_def)
  qed
qed

lemma records_sat_process_events:
  assumes obs: "\<And>n frame nms b t exc t' n'.
            P n t \<or> t = TrackedObject_init \<Longrightarrow> observe cfg clk n frame nms b t = (exc, t', n') \<Longrightarrow> P n' t'"
    and mono: "\<And>n n' t. P n t \<Longrightarrow> n \<le> n' \<Longrightarrow> P n' t"
  shows "records_sat P w \<Longrightarrow> records_sat P (snd (process_events cfg clk frame nms evs w))"
proof (induction evs arbitrary: w)
  case Nil
  then show ?case by simp
next
  case (Cons ev evs)
  obtain exc w' where pe: "process_event cfg clk frame nms ev w = (exc, w')" by fastforce
  have w': "records_sat P w'" by (rule records_sat_process_event[OF obs mono pe Cons.prems])
  show ?case
  proof (cases exc)
    case None
    with pe Cons.IH[OF w'] show ?thesis by simp
  next
    case (Some e)
    with pe w' show ?thesis by simp
  qed
qed

lemma records_sat_step:
  assumes obs: "\<And>n frame nms b t exc t' n'.
            P n t \<or> t = TrackedObject_init \<Longrightarrow> observe cfg clk n frame nms b t = (exc, t', n') \<Longrightarrow> P n' t'"
    and mono: "\<And>n n' t. P n t \<Longrightarrow> n \<le> n' \<Longrightarrow> P n' t"
    and sat: "records_sat P w"
  shows "records_sat P (step cfg clk c w)"
proof (cases c)
  case (Frame frame res)
  show ?thesis
  proof (cases "boxes_id res")
    case None
    with Frame sat show ?thesis by (simp add: track_next_frame_def)
  next
    case (Some ids)
    with Frame records_sat_process_events[OF obs mono sat] show ?thesis
      by (simp add: track_next_frame_def)
  qed
next
  case Query
  with sat show ?thesis by (simp add: get_objects_store)
qed

lemma run_snoc: "run cfg clk (calls @ [c]) = step cfg clk c (run cfg clk calls)"
  by (simp add: run_def)

lemma records_sat_run:
  assumes obs: "\<And>n frame nms b t exc t' n'.
            P n t \<or> t = TrackedObject_init \<Longrightarrow> observe cfg clk n frame nms b t = (exc, t', n') \<Longrightarrow> P n' t'"
    and mono: "\<And>n n' t. P n t \<Longrightarrow> n \<le> n' \<Longrightarrow> P n' t"
  shows "records_sat P (run cfg clk calls)"
proof (induction calls rule: rev_induct)
  case Nil
  show ?case by (simp add: run_def Tracker_init_def records_sat_def)
next
  case (snoc c calls)
  show ?case unfolding run_snoc by (rule records_sat_step[OF obs mono snoc.IH])
qed

section \<open>The vote ledger and the predicted type\<close>

lemma dict_count_incr:
  "dict_count (dict_incr d k) x = dict_count d x + (if x = k then 1 else 0)"
  by (induction d k rule: dict_incr.induct) (auto simp: dict_count_def)

lemma keys_dict_incr:
  "map fst (dict_incr d k) = (if k \<in> fst ` set d then map fst d else map fst d @ [k])"
  by (induction d k rule: dict_incr.induct) auto

lemma votes_of_snoc: "votes_of (ls @ [l]) = dict_incr (votes_of ls) l"
  by (simp add: votes_of_def)

lemma votes_of_count: "dict_count (votes_of ls) x = count_list ls x"
proof (induction ls rule: rev_induct)
  case Nil
  show ?case by (simp add: votes_of_def dict_count_def)
next
  case (snoc l ls)
  then show ?case by (simp add: votes_of_snoc dict_count_incr)
qed

lemma votes_of_keys: "set (map fst (votes_of ls)) = set ls"
proof (induction ls rule: rev_induct)
  case Nil
  show ?case by (simp add: votes_of_def)
next
  case (snoc l ls)
  then show ?case by (auto simp: votes_of_snoc keys_dict_incr)
qed

lemma first_pos_snoc_old: "a \<in> set ls \<Longrightarrow> first_pos a (ls @ [l]) = first_pos a ls"
  by (simp add: first_pos_def takeWhile_append1)

lemma first_pos_less: "a \<in> set ls \<Longrightarrow> first_pos a ls < length ls"
  unfolding first_pos_def by (induction ls) auto

lemma first_pos_snoc_new: "l \<notin> set ls \<Longrightarrow> first_pos l (ls @ [l]) = length ls"
  unfolding first_pos_def by (induction ls) auto

lemma votes_of_order:
  "sorted_wrt (\<lambda>a b. first_pos a ls < first_pos b ls) (map fst (votes_of ls))"
proof (induction ls rule: rev_induct)
  case Nil
  show ?case by (simp add: votes_of_def)
next
  case (snoc l ls)
  have keys: "set (map fst (votes_of ls)) = set ls" by (rule votes_of_keys)
  have old: "sorted_wrt (\<lambda>a b. first_pos a (ls @ [l]) < first_pos b (ls @ [l])) (map fst (votes_of ls))"
    by (rule sorted_wrt_mono_rel[OF _ snoc.IH]) (use keys in \<open>auto simp: first_pos_snoc_old\<close>)
  show ?case
  proof (cases "l \<in> set ls")
    case True
    then show ?thesis using old keys by (simp add: votes_of_snoc keys_dict_incr)
  next
    case False
    then have "\<forall>a\<in>set ls. first_pos a (ls @ [l]) < first_pos l (ls @ [l])"
      by (simp add: first_pos_snoc_old first_pos_snoc_new first_pos_less)
    then show ?thesis using old keys False
      by (simp add: votes_of_snoc keys_dict_incr sorted_wrt_append)
  qed
qed

lemma fold_max_split:
  fixes f :: "'a \<Rightarrow> nat"
  assumes "\<forall>y\<in>set pre. f y < f b" and "\<forall>y\<in>set post. f y \<le> f b"
  shows "\<exists>pre' post'. pre @ b # post @ rest
           = pre' @ fold (\<lambda>y best. if f best < f y then y else best) rest b # post'
         \<and> (\<forall>y\<in>set pre'. f y < f (fold (\<lambda>y best. if f best < f y then y else best) rest b))
         \<and> (\<forall>y\<in>set post'. f y \<le> f (fold (\<lambda>y best. if f best < f y then y else best) rest b))"
  using assms
proof (induction rest arbitrary: b pre post)
  case Nil
  then show ?case by auto
next
  case (Cons y rest)
  show ?case
  proof (cases "f b < f y")
    case True
    have a: "\<forall>z\<in>set (pre @ b # post). f z < (f y :: nat)"
      using Cons.prems True by fastforce
    have b: "\<forall>z\<in>set []. f z \<le> f y" by simp
    from Cons.IH[OF a b] True show ?thesis by simp
  next
    case False
    have b: "\<forall>z\<in>set (post @ [y]). f z \<le> (f b :: nat)"
      using Cons.prems False by auto
    from Cons.IH[OF Cons.prems(1) b] False show ?thesis by simp
  qed
qed

lemma py_max_first_maximal:
  assumes "xs \<noteq> []"
  shows "\<exists>r pre post. py_max f xs = Inr r \<and> xs = pre @ r # post
           \<and> (\<forall>y\<in>set pre. f y < f r) \<and> (\<forall>y\<in>set post. f y \<le> f r)"
proof -
  from assms obtain x rest where xs: "xs = x # rest" by (cases xs) auto
  have "\<forall>y\<in>set []. f y < f x" "\<forall>y\<in>set []. f y \<le> f x" by simp_all
  from fold_max_split[OF this, of rest] show ?thesis
    unfolding xs py_max_def by auto
qed

text \<open>
  C4. For a record whose ledger was built by voting for the labels \<open>ls\<close> (at least one),
  \<open>type\<close> returns a label of \<open>ls\<close> with the maximal vote count, the ledger's counts
  being the numbers of occurrences in \<open>ls\<close>; among the labels with that count it is the
  one observed first.
\<close>

theorem type_max_first_observed:
  assumes "predicted_types t = votes_of ls" and "ls \<noteq> []"
  shows "\<exists>l. type t = Inr l \<and> l \<in> set ls
           \<and> (\<forall>l'. dict_count (predicted_types t) l' = count_list ls l')
           \<and> (\<forall>l'. count_list ls l' \<le> count_list ls l)
           \<and> (\<forall>l'. count_list ls l' = count_list ls l \<longrightarrow> first_pos l ls \<le> first_pos l' ls)"
proof -
  let ?d = "votes_of ls"
  let ?ks = "map fst ?d"
  let ?f = "dict_count ?d"
  have keys: "set ?ks = set ls" by (rule votes_of_keys)
  with assms(2) have "?ks \<noteq> []" by auto
  from py_max_first_maximal[OF this, of ?f]
  obtain r pre post where r: "py_max ?f ?ks = Inr r" and split: "?ks = pre @ r # post"
    and pre: "\<forall>y\<in>set pre. ?f y < ?f r" and post: "\<forall>y\<in>set post. ?f y \<le> ?f r"
    by blast
  have cnt: "\<And>x. ?f x = count_list ls x" by (rule votes_of_count)
  have rin: "r \<in> set ls" using keys split by auto
  have max: "count_list ls l' \<le> count_list ls r" for l'
  proof (cases "l' \<in> set ls")
    case True
    then have "l' \<in> set pre \<or> l' = r \<or> l' \<in> set post" using keys split by auto
    then show ?thesis using pre post cnt by (auto simp: less_imp_le)
  next
    case False
    then show ?thesis by (simp add: count_list_0_iff)
  qed
  have ord: "sorted_wrt (\<lambda>a b. first_pos a ls < first_pos b ls) (pre @ r # post)"
    using votes_of_order[of ls] split by simp
  have tie: "first_pos r ls \<le> first_pos l' ls" if eq: "count_list ls l' = count_list ls r" for l'
  proof -
    have "count_list ls r \<noteq> 0" using rin count_list_0_iff[of ls r] by simp
    with eq have "l' \<in> set ls" using count_list_0_iff[of ls l'] by simp
    then have "l' \<in> set pre \<or> l' = r \<or> l' \<in> set post" using keys split by auto
    moreover have "l' \<notin> set pre" using pre cnt eq by auto
    ultimately consider "l' = r" | "l' \<in> set post" by blast
    then show ?thesis
    proof cases
      case 1
      then show ?thesis by simp
    next
      case 2
      then have "first_pos r ls < first_pos l' ls" using ord by (simp add: sorted_wrt_append)
      then show ?thesis by simp
    qed
  qed
  show ?thesis
    using r rin cnt max tie assms(1) by (auto simp: type_def)
qed

theorem type_max_first_observed_witness:
  "[''car'', ''truck''] \<noteq> [] \<and> [''car'', ''truck'', ''car''] \<noteq> []
   \<and> type (TrackedObject_init\<lparr>predicted_types := votes_of [''car'', ''truck'']\<rparr>) = Inr ''car''
   \<and> type (TrackedObject_init\<lparr>predicted_types := votes_of [''car'', ''truck'', ''car'']\<rparr>) = Inr ''car''"
proof -
  let ?a = "TrackedObject_init\<lparr>predicted_types := votes_of [''car'', ''truck'']\<rparr>"
  let ?b = "TrackedObject_init\<lparr>predicted_types := votes_of [''car'', ''truck'', ''car'']\<rparr>"
  from type_max_first_observed[of ?a "[''car'', ''truck'']"]
  obtain l where l: "type ?a = Inr l" "l \<in> set [''car'', ''truck'']"
    and tie: "\<forall>l'. count_list [''car'', ''truck''] l' = count_list [''car'', ''truck''] l
                \<longrightarrow> first_pos l [''car'', ''truck''] \<le> first_pos l' [''car'', ''truck'']"
    by auto
  from tie[rule_format, of "''car''"] l(2) have "l = ''car''"
    by (auto simp: first_pos_def)
  with l have a: "type ?a = Inr ''car''" by simp
  from type_max_first_observed[of ?b "[''car'', ''truck'', ''car'']"]
  obtain m where m: "type ?b = Inr m" "m \<in> set [''car'', ''truck'', ''car'']"
    and mx: "\<forall>l'. count_list [''car'', ''truck'', ''car''] l' \<le> count_list [''car'', ''truck'', ''car''] m"
    by auto
  from mx[rule_format, of "''car''"] m(2) have "m = ''car''"
    by auto
  with m have b: "type ?b = Inr ''car''" by simp
  from a b show ?thesis by simp
qed

text \<open>
  C10. \<open>type\<close> raises ValueError on a freshly created record, also on the one fetched
  for an identity not seen before; it raises exactly when the ledger is empty.
\<close>

theorem type_empty_ledger_raises:
  "type TrackedObject_init = Inl ValueError
   \<and> type (fst (getitem [] k)) = Inl ValueError
   \<and> (type t = Inl ValueError) = (predicted_types t = [])
   \<and> (\<exists>l. type t = Inr l) = (predicted_types t \<noteq> [])"
  by (auto simp: type_def py_max_def getitem_def TrackedObject_init_def split: list.splits)

section \<open>The crop rectangle\<close>

lemma py_int_nonneg: "0 \<le> r \<Longrightarrow> py_int r = \<lfloor>r\<rfloor>"
  by (simp add: py_int_def)

lemma axis_inside:
  fixes c s :: real and N :: nat
  assumes s0: "0 \<le> s" and lo: "s / 2 \<le> c" and hi: "c + s / 2 \<le> 1"
  shows "0 \<le> py_int (real_of_int (py_int (c * real N)) - real_of_int (py_int (s * real N)) / 2)
       \<and> 0 \<le> py_int (s * real N)
       \<and> py_int (real_of_int (py_int (c * real N)) - real_of_int (py_int (s * real N)) / 2)
           + py_int (s * real N) \<le> int N"
proof -
  define a where "a = c * real N"
  define b where "b = s * real N"
  define k where "k = \<lfloor>a\<rfloor>"
  define m where "m = \<lfloor>b\<rfloor>"
  have c0: "0 \<le> c" using s0 lo by linarith
  have a0: "0 \<le> a" using c0 by (simp add: a_def)
  have b0: "0 \<le> b" using s0 by (simp add: b_def)
  have pk: "py_int (c * real N) = k" using a0 by (simp add: py_int_def k_def a_def)
  have pm: "py_int (s * real N) = m" using b0 by (simp add: py_int_def m_def b_def)
  have k1: "real_of_int k \<le> a" and k2: "a < real_of_int k + 1"
    unfolding k_def by linarith+
  have m1: "real_of_int m \<le> b" and m2: "b < real_of_int m + 1"
    unfolding m_def by linarith+
  have m0: "0 \<le> m" unfolding m_def using b0 by simp
  have "s / 2 * real N \<le> c * real N" using lo by (intro mult_right_mono) simp_all
  then have half: "b \<le> 2 * a" by (simp add: a_def b_def)
  have "(c + s / 2) * real N \<le> 1 * real N" using hi by (intro mult_right_mono) simp_all
  then have top: "2 * a + b \<le> 2 * real N" by (simp add: a_def b_def algebra_simps)
  have km: "m \<le> 2 * k + 1"
  proof -
    have "real_of_int m < 2 * real_of_int k + 2" using m1 half k2 by linarith
    then have "m < 2 * k + 2" by linarith
    then show ?thesis by linarith
  qed
  have bound2: "2 * real_of_int k + real_of_int m \<le> 2 * real N" using k1 m1 top by linarith
  then have bound: "real_of_int k + real_of_int m / 2 \<le> real N" by simp
  let ?v = "real_of_int k - real_of_int m / 2"
  show ?thesis
  proof (cases "m \<le> 2 * k")
    case True
    then have v0: "0 \<le> ?v" by simp
    then have o: "py_int ?v = \<lfloor>?v\<rfloor>" by (simp add: py_int_def)
    have "0 \<le> \<lfloor>?v\<rfloor>" using v0 by simp
    moreover have "real_of_int (\<lfloor>?v\<rfloor> + m) \<le> real N"
    proof -
      have "real_of_int \<lfloor>?v\<rfloor> \<le> ?v" by (rule of_int_floor_le)
      then have "real_of_int \<lfloor>?v\<rfloor> + real_of_int m \<le> real_of_int k + real_of_int m / 2"
        by argo
      then show ?thesis using bound by simp
    qed
    then have "\<lfloor>?v\<rfloor> + m \<le> int N" by linarith
    ultimately show ?thesis using m0 by (simp add: pk pm o)
  next
    case False
    with km have meq: "m = 2 * k + 1" by linarith
    then have v: "?v = - (1 / 2)" by (simp add: field_simps)
    have "\<lceil>- (1 / 2) :: real\<rceil> = 0" by (rule ceiling_unique) simp_all
    then have o: "py_int ?v = 0" unfolding v py_int_def by simp
    have "real_of_int (2 * k + m) \<le> real_of_int (2 * int N)" using bound2 by simp
    then have "2 * k + m \<le> 2 * int N" by (simp only: of_int_le_iff)
    with meq have mN: "m \<le> int N" by linarith
    show ?thesis unfolding pk pm o using m0 mN by simp
  qed
qed

lemma image_width_replicate: "0 < n \<Longrightarrow> image_width (replicate n r) = length r"
  by (cases n) (simp_all add: image_width_def)

text \<open>
  C3, as the code has it. The rectangle is not clamped. For a normalised box that lies
  inside the frame (its half width is at most its centre's distance to the left and right
  edges, and likewise vertically) the rectangle has a non-negative origin and ends within
  the frame's width and height; the box \<open>(0.5, 0.5, 1, 1)\<close> on a frame of 100 by 100
  gives the whole frame.
\<close>

theorem crop_rect_inside:
  assumes "0 \<le> wn" and "0 \<le> hn"
    and "wn / 2 \<le> xc" and "xc + wn / 2 \<le> 1"
    and "hn / 2 \<le> yc" and "yc + hn / 2 \<le> 1"
    and "crop_rect H W (xc, yc, wn, hn) = (x, y, w, h)"
  shows "0 \<le> x \<and> 0 \<le> y \<and> 0 \<le> w \<and> 0 \<le> h \<and> x + w \<le> int W \<and> y + h \<le> int H"
  using axis_inside[OF assms(1,3,4), of W] axis_inside[OF assms(2,5,6), of H] assms(7)
  by (auto simp: crop_rect_def Let_def)

theorem crop_rect_inside_witness:
  "(0::real) \<le> 1 \<and> (1::real) / 2 \<le> 0.5 \<and> (0.5::real) + 1 / 2 \<le> 1
   \<and> crop_rect 100 100 (0.5, 0.5, 1, 1) = (0, 0, 100, 100)
   \<and> (0::int) \<le> 0 \<and> (0::int) + 100 \<le> int 100"
  using crop_rect_inside[of 1 1 "0.5" "0.5" 100 100 0 0 100 100]
  by (simp add: crop_rect_def py_int_def)

text \<open>
  C3 as stated fails: the box \<open>(0.02, 0.02, 0.2, 0.2)\<close> on a frame of 100 by 100 has the
  origin \<open>(-8, -8)\<close>, and the slice \<open>image[-8:12, -8:12]\<close> is empty.
\<close>

theorem crop_rect_not_clamped:
  "crop_rect 100 100 (0.02, 0.02, 0.2, 0.2) = (- 8, - 8, 20, 20)
   \<and> crop_image_with_bbox (replicate 100 (replicate 100 0)) (0.02, 0.02, 0.2, 0.2) = []"
  by (simp add: crop_image_with_bbox_def image_width_replicate crop_rect_def py_int_def
      py_slice_def slice_index_def)

section \<open>Records across calls\<close>

lemma process_event_related:
  assumes obs: "\<forall>n frame nms b t exc t' n'. observe cfg clk n frame nms b t = (exc, t', n') \<longrightarrow> R t t'"
    and refl: "\<forall>t. R t t"
    and ev: "process_event cfg clk frame nms ev w = (exc, w')"
    and t: "map_of (tracked_objects w) k = Some t"
  shows "\<exists>t'. map_of (tracked_objects w') k = Some t' \<and> R t t'"
proof -
  obtain b j where e: "ev = (b, j)" by fastforce
  from process_event_map[OF ev[unfolded e]] obtain t' where
    ob: "observe cfg clk (now_calls w) frame nms b (fst (getitem (tracked_objects w) j)) = (exc, t', now_calls w')"
    and m: "map_of (tracked_objects w') = (map_of (tracked_objects w))(j \<mapsto> t')" by blast
  show ?thesis
  proof (cases "j = k")
    case True
    with t have "fst (getitem (tracked_objects w) j) = t" by (simp add: getitem_fst)
    with ob have "R t t'" using obs by blast
    with True m show ?thesis by simp
  next
    case False
    with m t refl show ?thesis by auto
  qed
qed

lemma process_events_related:
  assumes obs: "\<forall>n frame nms b t exc t' n'. observe cfg clk n frame nms b t = (exc, t', n') \<longrightarrow> R t t'"
    and refl: "\<forall>t. R t t"
    and trans: "\<forall>a b c. R a b \<longrightarrow> R b c \<longrightarrow> R a c"
  shows "map_of (tracked_objects w) k = Some t \<Longrightarrow>
         \<exists>t'. map_of (tracked_objects (snd (process_events cfg clk frame nms evs w))) k = Some t' \<and> R t t'"
proof (induction evs arbitrary: w t)
  case Nil
  then show ?case using refl by simp
next
  case (Cons ev evs)
  obtain exc w' where pe: "process_event cfg clk frame nms ev w = (exc, w')" by fastforce
  from process_event_related[where R = R and cfg = cfg and clk = clk, OF obs refl pe Cons.prems]
  obtain t1 where t1: "map_of (tracked_objects w') k = Some t1" "R t t1" by blast
  show ?case
  proof (cases exc)
    case None
    from Cons.IH[OF t1(1)] obtain t2 where
      "map_of (tracked_objects (snd (process_events cfg clk frame nms evs w'))) k = Some t2" "R t1 t2"
      by blast
    with pe None t1(2) trans show ?thesis by auto
  next
    case (Some e)
    with pe t1 show ?thesis by auto
  qed
qed

lemma step_related:
  assumes obs: "\<forall>n frame nms b t exc t' n'. observe cfg clk n frame nms b t = (exc, t', n') \<longrightarrow> R t t'"
    and refl: "\<forall>t. R t t"
    and trans: "\<forall>a b c. R a b \<longrightarrow> R b c \<longrightarrow> R a c"
    and t: "map_of (tracked_objects w) k = Some t"
  shows "\<exists>t'. map_of (tracked_objects (step cfg clk c w)) k = Some t' \<and> R t t'"
proof (cases c)
  case (Frame frame res)
  show ?thesis
  proof (cases "boxes_id res")
    case None
    with Frame t refl show ?thesis by (simp add: track_next_frame_def)
  next
    case (Some ids)
    with Frame process_events_related[where R = R and cfg = cfg and clk = clk, OF obs refl trans t] show ?thesis
      by (simp add: track_next_frame_def)
  qed
next
  case Query
  with t refl show ?thesis by (simp add: get_objects_store)
qed

lemma run_append: "run cfg clk (calls @ later) = fold (step cfg clk) later (run cfg clk calls)"
  by (simp add: run_def)

lemma run_related:
  assumes obs: "\<forall>n frame nms b t exc t' n'. observe cfg clk n frame nms b t = (exc, t', n') \<longrightarrow> R t t'"
    and refl: "\<forall>t. R t t"
    and trans: "\<forall>a b c. R a b \<longrightarrow> R b c \<longrightarrow> R a c"
    and t: "map_of (tracked_objects (run cfg clk calls)) k = Some t"
  shows "\<exists>t'. map_of (tracked_objects (run cfg clk (calls @ later))) k = Some t' \<and> R t t'"
proof (induction later rule: rev_induct)
  case Nil
  with t refl show ?case by simp
next
  case (snoc c later)
  then obtain t1 where t1: "map_of (tracked_objects (run cfg clk (calls @ later))) k = Some t1" "R t t1"
    by blast
  from step_related[where R = R and cfg = cfg and clk = clk and c = c, OF obs refl trans t1(1)]
  obtain t2 where "map_of (tracked_objects (step cfg clk c (run cfg clk (calls @ later)))) k = Some t2" "R t1 t2"
    by blast
  with t1(2) trans have "\<exists>t'. map_of (tracked_objects (step cfg clk c (run cfg clk (calls @ later)))) k = Some t' \<and> R t t'"
    by blast
  then show ?case using run_snoc[of cfg clk "calls @ later" c] by simp
qed

subsection \<open>What one pass of the loop body does to a record\<close>

lemma observe_first_detection:
  assumes "observe cfg clk n frame nms b t = (exc, t', n')"
  shows "first_detection t' = (case first_detection t of None \<Rightarrow> Some (strftime (clk n)) | Some f \<Rightarrow> Some f)"
  using assms
  by (auto simp: observe_def detect_def points_setter_def Let_def
      split: prod.splits option.splits sum.splits if_splits list.splits)

lemma observe_cropped_frame:
  assumes "observe cfg clk n frame nms b t = (exc, t', n')"
  shows "cropped_frame t' =
           (if cropped_frame t = None \<and> FRAMES_COUNT cfg < int (len t)
            then Some (crop_image_with_bbox frame (xywhn b)) else cropped_frame t)"
  using assms
  by (auto simp: observe_def detect_def points_setter_def len_def Let_def
      split: prod.splits option.splits sum.splits if_splits list.splits)

lemma observe_ok:
  assumes "observe cfg clk n frame nms b t = (None, t', n')"
  shows "\<exists>label. map_of nms (cls b) = Some label
           \<and> predicted_types t' = dict_incr (predicted_types t) label
           \<and> tracked_points t' =
               (if MAX_POINTS cfg < int (length (tracked_points t)) then tl (tracked_points t)
                else tracked_points t) @ [(fst (xywh b), fst (snd (xywh b)))]"
  using assms
  by (auto simp: observe_def detect_def points_setter_def Let_def
      split: prod.splits option.splits sum.splits if_splits list.splits)

lemma observe_total:
  assumes "0 \<le> MAX_POINTS cfg" and "map_of nms (cls b) = Some label"
  shows "fst (observe cfg clk n frame nms b t) = None"
  using assms
  by (auto simp: observe_def detect_def points_setter_def Let_def
      split: prod.splits option.splits sum.splits if_splits list.splits)

lemma observe_raises:
  assumes "observe cfg clk n frame nms b t = (Some e, t', n')" and "0 \<le> MAX_POINTS cfg"
  shows "e = KeyError \<and> map_of nms (cls b) = None
         \<and> predicted_types t' = predicted_types t \<and> tracked_points t' = tracked_points t"
  using assms
  by (auto simp: observe_def detect_def points_setter_def Let_def
      split: prod.splits option.splits sum.splits if_splits list.splits)

lemma sum_dict_incr: "sum_list (map snd (dict_incr d k)) = Suc (sum_list (map snd d))"
  by (induction d k rule: dict_incr.induct) auto

lemma observe_len:
  assumes "observe cfg clk n frame nms b t = (None, t', n')"
  shows "len t' = Suc (sum_list (map snd (predicted_types t)))"
  using observe_ok[OF assms] by (auto simp: len_def sum_dict_incr)

section \<open>A run that observes one track in every frame\<close>

lemma solo_step:
  assumes "boxes res = [b]" and "boxes_id res = Some [k]" and "names res \<noteq> []"
  shows "step cfg clk (Frame frame res) w = snd (process_event cfg clk frame (names res) (b, k) w)"
proof -
  from assms(3) obtain nm rest where "names res = nm # rest" by (cases "names res") auto
  with assms(1,2) have z: "zipped res [k] = [(b, k)]" by (simp add: zipped_def)
  show ?thesis
    by (simp add: track_next_frame_def assms(2) z split: prod.splits option.splits)
qed

lemma solo_first:
  assumes "map_of nms (cls b) = Some label" and "0 \<le> MAX_POINTS cfg"
  shows "snd (process_event cfg clk frame nms (b, k) Tracker_init) =
     \<lparr>tracked_objects =
        [(k, \<lparr>tracked_points = [(fst (xywh b), fst (snd (xywh b)))],
               predicted_types = [(label, 1)],
               first_detection = Some (strftime (clk 0)),
               last_detection = Some (strftime (clk 1)),
               cropped_frame = (if FRAMES_COUNT cfg < 0
                                then Some (crop_image_with_bbox frame (xywhn b)) else None)\<rparr>)],
      now_calls = 2\<rparr>"
  using assms
  by (auto simp: process_event_def getitem_def observe_def detect_def points_setter_def len_def
      Tracker_init_def TrackedObject_init_def Let_def split: prod.splits)

lemma event_on_single:
  assumes "map_of nms (cls b) = Some label" and "tracked_points t \<noteq> []"
    and "first_detection t = Some f"
  shows "snd (process_event cfg clk frame nms (b, k) \<lparr>tracked_objects = [(k, t)], now_calls = m\<rparr>) =
     \<lparr>tracked_objects =
        [(k, t\<lparr>last_detection := Some (strftime (clk m)),
               cropped_frame := (if cropped_frame t = None \<and> FRAMES_COUNT cfg < int (len t)
                                 then Some (crop_image_with_bbox frame (xywhn b))
                                 else cropped_frame t),
               predicted_types := dict_incr (predicted_types t) label,
               tracked_points := (if MAX_POINTS cfg < int (length (tracked_points t))
                                  then tl (tracked_points t) else tracked_points t)
                                 @ [(fst (xywh b), fst (snd (xywh b)))]\<rparr>)],
      now_calls = Suc m\<rparr>"
proof -
  from assms(2) obtain q qs where "tracked_points t = q # qs" by (cases "tracked_points t") auto
  with assms(1,3) show ?thesis
    by (simp add: process_event_def getitem_def observe_def detect_def points_setter_def len_def
        Let_def split: prod.splits)
qed

lemma replicate_push:
  assumes "0 \<le> (M::int)"
  shows "(if M < int (min (Suc n) (nat M + 1)) then tl (replicate (min (Suc n) (nat M + 1)) p)
          else replicate (min (Suc n) (nat M + 1)) p) @ [p]
         = replicate (min (Suc (Suc n)) (nat M + 1)) p"
proof (cases "M < int (min (Suc n) (nat M + 1))")
  case True
  then have L: "min (Suc n) (nat M + 1) = nat M + 1" using assms by linarith
  then have "Suc n \<ge> nat M + 1" by linarith
  then have "min (Suc (Suc n)) (nat M + 1) = nat M + 1" by simp
  moreover have "tl (replicate (nat M + 1) p) @ [p] = replicate (nat M + 1) p"
    by (simp add: replicate_append_same)
  ultimately show ?thesis using True L by simp
next
  case False
  then have "Suc n \<le> nat M" using assms by linarith
  then have "min (Suc n) (nat M + 1) = Suc n" "min (Suc (Suc n)) (nat M + 1) = Suc (Suc n)"
    by simp_all
  with False show ?thesis by (simp add: replicate_append_same)
qed

lemma solo_next:
  assumes "map_of nms (cls b) = Some label" and "0 \<le> MAX_POINTS cfg"
  shows "snd (process_event cfg clk frame nms (b, k)
     \<lparr>tracked_objects =
        [(k, \<lparr>tracked_points = replicate (min (Suc n) (nat (MAX_POINTS cfg) + 1)) (fst (xywh b), fst (snd (xywh b))),
               predicted_types = [(label, Suc n)],
               first_detection = Some (strftime (clk 0)),
               last_detection = Some (strftime (clk (Suc n))),
               cropped_frame = (if FRAMES_COUNT cfg + 1 < int (Suc n)
                                then Some (crop_image_with_bbox frame (xywhn b)) else None)\<rparr>)],
      now_calls = Suc (Suc n)\<rparr>) =
     \<lparr>tracked_objects =
        [(k, \<lparr>tracked_points = replicate (min (Suc (Suc n)) (nat (MAX_POINTS cfg) + 1)) (fst (xywh b), fst (snd (xywh b))),
               predicted_types = [(label, Suc (Suc n))],
               first_detection = Some (strftime (clk 0)),
               last_detection = Some (strftime (clk (Suc (Suc n)))),
               cropped_frame = (if FRAMES_COUNT cfg + 1 < int (Suc (Suc n))
                                then Some (crop_image_with_bbox frame (xywhn b)) else None)\<rparr>)],
      now_calls = Suc (Suc (Suc n))\<rparr>"
proof -
  define p where "p = (fst (xywh b), fst (snd (xywh b)))"
  define pts where "pts = replicate (min (Suc n) (nat (MAX_POINTS cfg) + 1)) p"
  define pts' where "pts' = replicate (min (Suc (Suc n)) (nat (MAX_POINTS cfg) + 1)) p"
  have ne: "pts \<noteq> []" by (simp add: pts_def)
  have push: "(if MAX_POINTS cfg < int (length pts) then tl pts else pts) @ [p] = pts'"
    unfolding pts_def pts'_def length_replicate by (rule replicate_push[OF assms(2)])
  let ?t = "\<lparr>tracked_points = pts, predicted_types = [(label, Suc n)],
             first_detection = Some (strftime (clk 0)),
             last_detection = Some (strftime (clk (Suc n))),
             cropped_frame = (if FRAMES_COUNT cfg + 1 < int (Suc n)
                              then Some (crop_image_with_bbox frame (xywhn b)) else None)\<rparr>"
  have len: "len ?t = Suc n" using ne by (simp add: len_def)
  have "tracked_points ?t \<noteq> []" using ne by simp
  from event_on_single[OF assms(1) this, of "strftime (clk 0)" cfg clk frame k "Suc (Suc n)"]
  have "snd (process_event cfg clk frame nms (b, k) \<lparr>tracked_objects = [(k, ?t)], now_calls = Suc (Suc n)\<rparr>)
      = \<lparr>tracked_objects =
        [(k, \<lparr>tracked_points = pts', predicted_types = [(label, Suc (Suc n))],
               first_detection = Some (strftime (clk 0)),
               last_detection = Some (strftime (clk (Suc (Suc n)))),
               cropped_frame = (if FRAMES_COUNT cfg + 1 < int (Suc (Suc n))
                                then Some (crop_image_with_bbox frame (xywhn b)) else None)\<rparr>)],
      now_calls = Suc (Suc (Suc n))\<rparr>"
    unfolding len using push by (simp add: p_def[symmetric] cong: if_cong)
  then show ?thesis unfolding pts_def pts'_def p_def .
qed

lemma solo_run:
  assumes res: "boxes res = [b]" "boxes_id res = Some [k]" "names res \<noteq> []"
    and lab: "map_of (names res) (cls b) = Some label" and mp: "0 \<le> MAX_POINTS cfg"
  shows "run cfg clk (replicate (Suc n) (Frame frame res)) =
     \<lparr>tracked_objects =
        [(k, \<lparr>tracked_points = replicate (min (Suc n) (nat (MAX_POINTS cfg) + 1)) (fst (xywh b), fst (snd (xywh b))),
               predicted_types = [(label, Suc n)],
               first_detection = Some (strftime (clk 0)),
               last_detection = Some (strftime (clk (Suc n))),
               cropped_frame = (if FRAMES_COUNT cfg + 1 < int (Suc n)
                                then Some (crop_image_with_bbox frame (xywhn b)) else None)\<rparr>)],
      now_calls = Suc (Suc n)\<rparr>"
proof (induction n)
  case 0
  have "run cfg clk [Frame frame res] = step cfg clk (Frame frame res) Tracker_init"
    by (simp add: run_def)
  also have "\<dots> = snd (process_event cfg clk frame (names res) (b, k) Tracker_init)"
    by (rule solo_step[OF res])
  finally show ?case
    using solo_first[OF lab mp, of clk frame k] by (simp add: numeral_2_eq_2)
next
  case (Suc n)
  have "replicate (Suc (Suc n)) (Frame frame res) = replicate (Suc n) (Frame frame res) @ [Frame frame res]"
    by (simp add: replicate_append_same)
  then have "run cfg clk (replicate (Suc (Suc n)) (Frame frame res))
        = step cfg clk (Frame frame res) (run cfg clk (replicate (Suc n) (Frame frame res)))"
    by (simp only: run_snoc)
  then show ?case
    unfolding Suc.IH solo_step[OF res] by (simp only: solo_next[OF lab mp])
qed

section \<open>Snapshot, trajectory and ledger across calls\<close>

text \<open>
  Once a record has a snapshot, later calls keep it; with a capacity that is not negative
  a record never holds more than \<open>MAX_POINTS + 1\<close> points; every stored ledger is the
  ledger of some sequence of votes.
\<close>

lemma run_snapshot_kept:
  assumes "map_of (tracked_objects (run cfg clk calls)) k = Some t"
  shows "\<exists>t'. map_of (tracked_objects (run cfg clk (calls @ later))) k = Some t'
            \<and> (cropped_frame t \<noteq> None \<longrightarrow> cropped_frame t' = cropped_frame t)"
proof (rule run_related[where R = "\<lambda>t t'. cropped_frame t \<noteq> None \<longrightarrow> cropped_frame t' = cropped_frame t", OF _ _ _ assms])
  show "\<forall>n frame nms b t exc t' n'. observe cfg clk n frame nms b t = (exc, t', n')
          \<longrightarrow> cropped_frame t \<noteq> None \<longrightarrow> cropped_frame t' = cropped_frame t"
    using observe_cropped_frame by fastforce
qed auto

lemma observe_points_bound:
  assumes mp: "0 \<le> MAX_POINTS cfg"
    and ob: "observe cfg clk n frame nms b t = (exc, t', n')"
    and t: "int (length (tracked_points t)) \<le> MAX_POINTS cfg + 1"
  shows "int (length (tracked_points t')) \<le> MAX_POINTS cfg + 1"
proof (cases exc)
  case None
  with observe_ok[of cfg clk n frame nms b t t' n'] ob
  have tp: "length (tracked_points t') =
      Suc (length (if MAX_POINTS cfg < int (length (tracked_points t)) then tl (tracked_points t)
                   else tracked_points t))"
    by auto
  show ?thesis
  proof (cases "MAX_POINTS cfg < int (length (tracked_points t))")
    case True
    with mp have "0 < length (tracked_points t)" by auto
    with tp True t show ?thesis by auto
  next
    case False
    with tp show ?thesis by auto
  qed
next
  case (Some e)
  with observe_raises[of cfg clk n frame nms b t e t' n'] ob mp t show ?thesis by auto
qed

lemma run_points_bound:
  assumes "0 \<le> MAX_POINTS cfg"
  shows "records_sat (\<lambda>n t. int (length (tracked_points t)) \<le> MAX_POINTS cfg + 1) (run cfg clk calls)"
proof (rule records_sat_run)
  fix n frame nms b t exc t' n'
  assume "int (length (tracked_points t)) \<le> MAX_POINTS cfg + 1 \<or> t = TrackedObject_init"
    and ob: "observe cfg clk n frame nms b t = (exc, t', n')"
  then have "int (length (tracked_points t)) \<le> MAX_POINTS cfg + 1"
    using assms by (auto simp: TrackedObject_init_def)
  then show "int (length (tracked_points t')) \<le> MAX_POINTS cfg + 1"
    by (rule observe_points_bound[OF assms ob])
qed

lemma run_ledger:
  "records_sat (\<lambda>n t. \<exists>ls. predicted_types t = votes_of ls) (run cfg clk calls)"
proof (rule records_sat_run)
  fix n frame nms b t exc t' n'
  assume t: "(\<exists>ls. predicted_types t = votes_of ls) \<or> t = TrackedObject_init"
    and ob: "observe cfg clk n frame nms b t = (exc, t', n')"
  have "\<exists>ls. predicted_types t = votes_of ls"
  proof (rule disjE[OF t])
    assume "t = TrackedObject_init"
    then have "predicted_types t = votes_of []" by (simp add: TrackedObject_init_def votes_of_def)
    then show ?thesis by blast
  qed
  then obtain ls where ls: "predicted_types t = votes_of ls" by blast
  from ob have "predicted_types t' = predicted_types t
      \<or> (\<exists>label. predicted_types t' = dict_incr (predicted_types t) label)"
    by (auto simp: observe_def detect_def points_setter_def Let_def
        split: prod.splits option.splits sum.splits if_splits list.splits)
  then show "\<exists>ls. predicted_types t' = votes_of ls"
    using ls votes_of_snoc by metis
qed

section \<open>The snapshot and the trajectory on a concrete run\<close>

lemma car_run:
  "run default_config clock0 (replicate (Suc n) (Frame frame0 car_results)) =
     \<lparr>tracked_objects =
        [(1, \<lparr>tracked_points = replicate (min (Suc n) 91) (1, 1),
               predicted_types = [(''car'', Suc n)],
               first_detection = Some (strftime (clock0 0)),
               last_detection = Some (strftime (clock0 (Suc n))),
               cropped_frame = (if 11 < int (Suc n) then Some [[1, 2], [3, 4]] else None)\<rparr>)],
      now_calls = Suc (Suc n)\<rparr>"
proof -
  have a: "boxes car_results = [car_box]" "boxes_id car_results = Some [1]" "names car_results \<noteq> []"
    by (simp_all add: car_results_def coco_names_def)
  have b: "map_of (names car_results) (cls car_box) = Some ''car''"
    by (simp add: car_results_def coco_names_def car_box_def)
  have c: "0 \<le> MAX_POINTS default_config" by (simp add: default_config_def)
  have crop: "crop_image_with_bbox frame0 (xywhn car_box) = [[1, 2], [3, 4]]"
    by (simp add: crop_image_with_bbox_def crop_rect_def py_int_def py_slice_def slice_index_def
        image_width_def frame0_def car_box_def)
  show ?thesis
    unfolding solo_run[OF a b c] crop
    by (simp add: default_config_def car_box_def)
qed

text \<open>
  C1, at the input where the code departs from it: with the default threshold 10, after
  eleven observations of a track its record has no snapshot, although \<open>get_objects\<close>
  already returns it; the snapshot is taken during the twelfth observation.
\<close>

theorem snapshot_on_twelfth_observation:
  "map_option cropped_frame
     (map_of (tracked_objects (run default_config clock0 (replicate 11 (Frame frame0 car_results)))) 1)
     = Some None
   \<and> map fst (fst (get_objects default_config
        (tracked_objects (run default_config clock0 (replicate 11 (Frame frame0 car_results)))))) = [1]
   \<and> map_option cropped_frame
     (map_of (tracked_objects (run default_config clock0 (replicate 12 (Frame frame0 car_results)))) 1)
     = Some (Some [[1, 2], [3, 4]])"
proof -
  have e: "replicate 11 (Frame frame0 car_results) = replicate (Suc 10) (Frame frame0 car_results)"
    "replicate 12 (Frame frame0 car_results) = replicate (Suc 11) (Frame frame0 car_results)"
    by simp_all
  show ?thesis
    unfolding e car_run
    by (simp add: get_objects_def getitem_def len_def default_config_def)
qed

text \<open>
  C2, at the input where the code departs from it: with the default \<open>MAX_POINTS\<close> of 90,
  after 91 observations of a track its record holds 91 points.
\<close>

theorem trajectory_exceeds_max_points:
  "map_option (length \<circ> tracked_points)
     (map_of (tracked_objects (run default_config clock0 (replicate 91 (Frame frame0 car_results)))) 1)
     = Some 91
   \<and> MAX_POINTS default_config = 90"
proof -
  have e: "replicate 91 (Frame frame0 car_results) = replicate (Suc 90) (Frame frame0 car_results)"
    by simp
  show ?thesis
    unfolding e car_run by (simp add: default_config_def)
qed

section \<open>Observation counts\<close>

lemma len_cong: "tracked_points a = tracked_points b \<Longrightarrow> predicted_types a = predicted_types b \<Longrightarrow> len a = len b"
  by (simp add: len_def)

lemma observe_keeps_len_votes:
  assumes mp: "0 \<le> MAX_POINTS cfg"
    and ob: "observe cfg clk n frame nms b t = (exc, t', n')"
    and t: "len t = sum_list (map snd (predicted_types t)) \<or> t = TrackedObject_init"
  shows "len t' = sum_list (map snd (predicted_types t'))"
proof (cases exc)
  case None
  with observe_ok[of cfg clk n frame nms b t t' n'] ob show ?thesis
    by (auto simp: len_def)
next
  case (Some e)
  with observe_raises[of cfg clk n frame nms b t e t' n'] ob mp
  have same: "predicted_types t' = predicted_types t" "tracked_points t' = tracked_points t" by auto
  have "len t = sum_list (map snd (predicted_types t))"
  proof (rule disjE[OF t])
    assume "t = TrackedObject_init"
    then show ?thesis by (simp add: len_def TrackedObject_init_def)
  qed
  with same len_cong[OF same(2) same(1)] show ?thesis by simp
qed

lemma run_len_votes:
  assumes "0 \<le> MAX_POINTS cfg"
  shows "records_sat (\<lambda>n t. len t = sum_list (map snd (predicted_types t))) (run cfg clk calls)"
proof (rule records_sat_run)
  fix n frame nms b t exc t' n'
  assume "len t = sum_list (map snd (predicted_types t)) \<or> t = TrackedObject_init"
    and "observe cfg clk n frame nms b t = (exc, t', n')"
  then show "len t' = sum_list (map snd (predicted_types t'))"
    using observe_keeps_len_votes[OF assms] by blast
qed

lemma process_event_total:
  assumes "0 \<le> MAX_POINTS cfg" and "map_of nms (cls b) = Some label"
  shows "fst (process_event cfg clk frame nms (b, k) w) = None"
proof -
  obtain exc w' where pe: "process_event cfg clk frame nms (b, k) w = (exc, w')" by fastforce
  from process_event_map[OF pe] obtain t' where
    "observe cfg clk (now_calls w) frame nms b (fst (getitem (tracked_objects w) k)) = (exc, t', now_calls w')"
    by blast
  with observe_total[OF assms, of clk "now_calls w" frame "fst (getitem (tracked_objects w) k)"]
  have "exc = None" by simp
  with pe show ?thesis by simp
qed

lemma process_event_obs_count:
  assumes sat: "records_sat (\<lambda>n t. len t = sum_list (map snd (predicted_types t))) w"
    and pe: "process_event cfg clk frame nms (b, k) w = (None, w')"
  shows "obs_count w' j = obs_count w j + (if j = k then 1 else 0)"
proof -
  let ?t = "fst (getitem (tracked_objects w) k)"
  from process_event_map[OF pe] obtain t' where
    ob: "observe cfg clk (now_calls w) frame nms b ?t = (None, t', now_calls w')"
    and m: "map_of (tracked_objects w') = (map_of (tracked_objects w))(k \<mapsto> t')" by blast
  have old: "obs_count w k = sum_list (map snd (predicted_types ?t))"
    using sat
    by (auto simp: obs_count_def getitem_fst records_sat_def TrackedObject_init_def
        split: option.splits)
  have "len t' = Suc (sum_list (map snd (predicted_types ?t)))" by (rule observe_len[OF ob])
  with old m show ?thesis by (simp add: obs_count_def)
qed

lemma process_events_all_applied:
  assumes mp: "0 \<le> MAX_POINTS cfg"
  shows "records_sat (\<lambda>n t. len t = sum_list (map snd (predicted_types t))) w \<Longrightarrow>
         \<forall>ev\<in>set evs. map_of nms (cls (fst ev)) \<noteq> None \<Longrightarrow>
         fst (process_events cfg clk frame nms evs w) = None
         \<and> (\<forall>j. obs_count (snd (process_events cfg clk frame nms evs w)) j
                = obs_count w j + count_list (map snd evs) j)"
proof (induction evs arbitrary: w)
  case Nil
  show ?case by simp
next
  case (Cons ev evs)
  obtain b k where ev: "ev = (b, k)" by fastforce
  from Cons.prems(2) ev obtain label where lab: "map_of nms (cls b) = Some label" by auto
  obtain exc w' where pe0: "process_event cfg clk frame nms (b, k) w = (exc, w')" by fastforce
  with process_event_total[OF mp lab, of clk frame k w]
  have pe: "process_event cfg clk frame nms (b, k) w = (None, w')" by simp
  have sat': "records_sat (\<lambda>n t. len t = sum_list (map snd (predicted_types t))) w'"
  proof (rule records_sat_process_event[OF _ _ pe Cons.prems(1)])
    fix n frame nms b t exc t' n'
    assume "len t = sum_list (map snd (predicted_types t)) \<or> t = TrackedObject_init"
      and "observe cfg clk n frame nms b t = (exc, t', n')"
    then show "len t' = sum_list (map snd (predicted_types t'))"
      using observe_keeps_len_votes[OF mp] by blast
  qed
  have rest: "\<forall>ev\<in>set evs. map_of nms (cls (fst ev)) \<noteq> None" using Cons.prems(2) by simp
  from Cons.IH[OF sat' rest] process_event_obs_count[OF Cons.prems(1) pe] pe ev
  show ?case by auto
qed

lemma zipped_full:
  assumes "length ids = length (boxes res)" and "length (boxes res) \<le> length (names res)"
  shows "zipped res ids = zip (boxes res) ids"
proof -
  have "length (boxes res) = length (zip ids (names res))" using assms by simp
  have "map (\<lambda>(b, track_id, name). (b, track_id)) (zip bs (zip ks nmz)) = zip bs ks"
    if "length ks = length bs" "length bs \<le> length nmz" for bs :: "box list" and ks :: "int list" and nmz :: "(int \<times> string) list"
    using that
  proof (induction bs arbitrary: ks nmz)
    case Nil
    then show ?case by simp
  next
    case (Cons x bs)
    then obtain k ks' where "ks = k # ks'" by (cases ks) auto
    moreover from Cons.prems obtain nm nmz' where "nmz = nm # nmz'" by (cases nmz) auto
    ultimately show ?case using Cons by simp
  qed
  from this[OF assms] show ?thesis by (simp add: zipped_def)
qed

lemma car_first:
  "run default_config clock0 [Frame frame0 car_results] =
     \<lparr>tracked_objects =
        [(1, \<lparr>tracked_points = [(1, 1)], predicted_types = [(''car'', 1)],
               first_detection = Some (strftime (clock0 0)),
               last_detection = Some (strftime (clock0 1)),
               cropped_frame = None\<rparr>)],
      now_calls = 2\<rparr>"
  using car_run[of 0] by (simp add: numeral_2_eq_2)

text \<open>
  C7. With a capacity \<open>MAX_POINTS\<close> that is not negative, after any calls every stored
  record's observation count \<open>len\<close> is the sum of the vote counts of its ledger, and
  every event that is processed without an exception raises the observation count of its
  identity by exactly one.
\<close>

theorem observation_count_votes:
  assumes "0 \<le> MAX_POINTS cfg"
  shows "(\<forall>k t. map_of (tracked_objects (run cfg clk calls)) k = Some t
            \<longrightarrow> len t = sum_list (map snd (predicted_types t)))
       \<and> (\<forall>frame nms b k w'.
            process_event cfg clk frame nms (b, k) (run cfg clk calls) = (None, w')
            \<longrightarrow> obs_count w' k = Suc (obs_count (run cfg clk calls) k))"
  using run_len_votes[OF assms, of clk calls] process_event_obs_count[OF run_len_votes[OF assms, of clk calls]]
  by (auto simp: records_sat_def)

theorem observation_count_votes_witness:
  "0 \<le> MAX_POINTS default_config
   \<and> obs_count (run default_config clock0 [Frame frame0 car_results]) 1 = 1
   \<and> obs_count (snd (process_event default_config clock0 frame0 coco_names (car_box, 1)
         (run default_config clock0 [Frame frame0 car_results]))) 1 = 2"
proof -
  let ?w = "run default_config clock0 [Frame frame0 car_results]"
  have mp: "0 \<le> MAX_POINTS default_config" by (simp add: default_config_def)
  have lab: "map_of coco_names (cls car_box) = Some ''car''"
    by (simp add: coco_names_def car_box_def)
  have c1: "obs_count ?w 1 = 1" by (simp add: car_first obs_count_def len_def)
  obtain exc w' where pe: "process_event default_config clock0 frame0 coco_names (car_box, 1) ?w = (exc, w')"
    by fastforce
  with process_event_total[OF mp lab, of clock0 frame0 1 ?w] have "exc = None" by simp
  with pe observation_count_votes[OF mp, of clock0 "[Frame frame0 car_results]"]
  have "obs_count w' 1 = Suc (obs_count ?w 1)" by blast
  with pe c1 mp show ?thesis by simp
qed

text \<open>
  C8, as the code has it. Nothing is validated or skipped: for a batch with as many track
  ids as boxes, at most as many boxes as class names, a name for every class index, and
  finite box coordinates (the coordinates of this model are real numbers),
  \<open>track_next_frame\<close> raises nothing and every event of the batch is applied, wherever
  its box lies and whatever its label: each identity's observation count grows by the
  number of the batch's events for it.
\<close>

theorem events_all_applied:
  assumes "0 \<le> MAX_POINTS cfg"
    and "boxes_id res = Some ids" and "length ids = length (boxes res)"
    and "length (boxes res) \<le> length (names res)"
    and "\<forall>b\<in>set (boxes res). map_of (names res) (cls b) \<noteq> None"
  shows "fst (track_next_frame cfg clk frame res (run cfg clk calls)) = None
       \<and> (\<forall>k. obs_count (snd (track_next_frame cfg clk frame res (run cfg clk calls))) k
                = obs_count (run cfg clk calls) k + count_list ids k)"
proof -
  have z: "zipped res ids = zip (boxes res) ids" by (rule zipped_full[OF assms(3,4)])
  have named: "\<forall>ev\<in>set (zip (boxes res) ids). map_of (names res) (cls (fst ev)) \<noteq> None"
    using assms(5) by (auto dest: set_zip_leftD)
  have ids: "map snd (zip (boxes res) ids) = ids" using assms(3) by simp
  have sat: "records_sat (\<lambda>n t. len t = sum_list (map snd (predicted_types t))) (run cfg clk calls)"
    by (rule run_len_votes[OF assms(1)])
  from process_events_all_applied[OF assms(1) sat named]
  show ?thesis
    by (simp add: track_next_frame_def assms(2) z ids)
qed

theorem events_all_applied_witness:
  "0 \<le> MAX_POINTS default_config \<and> boxes_id bad_results = Some [4]
   \<and> length [4 :: int] = length (boxes bad_results)
   \<and> length (boxes bad_results) \<le> length (names bad_results)
   \<and> map_of (names bad_results) (cls bad_box) \<noteq> None
   \<and> fst (track_next_frame default_config clock0 frame0 bad_results (run default_config clock0 [])) = None
   \<and> obs_count (snd (track_next_frame default_config clock0 frame0 bad_results
         (run default_config clock0 []))) 4 = 1"
proof -
  have h: "0 \<le> MAX_POINTS default_config" "boxes_id bad_results = Some [4]"
    "length [4 :: int] = length (boxes bad_results)"
    "length (boxes bad_results) \<le> length (names bad_results)"
    "\<forall>b\<in>set (boxes bad_results). map_of (names bad_results) (cls b) \<noteq> None"
    by (simp_all add: default_config_def bad_results_def bad_box_def)
  have z: "obs_count (run default_config clock0 []) 4 = 0"
    by (simp add: run_def Tracker_init_def obs_count_def)
  from events_all_applied[OF h, of clock0 frame0 "[]"] z h
  show ?thesis by (simp add: bad_results_def bad_box_def)
qed

text \<open>
  C8 as stated fails: an event whose box lies outside the unit square and whose class
  label is empty is applied like any other, and no error is reported.
\<close>

theorem malformed_event_applied:
  "fst (track_next_frame default_config clock0 frame0 bad_results Tracker_init) = None
   \<and> map_option predicted_types
        (map_of (tracked_objects (snd (track_next_frame default_config clock0 frame0 bad_results
           Tracker_init))) 4) = Some [([], 1)]
   \<and> map_option tracked_points
        (map_of (tracked_objects (snd (track_next_frame default_config clock0 frame0 bad_results
           Tracker_init))) 4) = Some [(- 5, 700)]
   \<and> tracked_objects Tracker_init = []"
  by (simp add: track_next_frame_def zipped_def bad_results_def bad_box_def process_event_def
      getitem_def observe_def detect_def points_setter_def len_def default_config_def
      Tracker_init_def TrackedObject_init_def Let_def)

section \<open>The confirmed-track query\<close>

lemma update_append_new: "k \<notin> fst ` set al \<Longrightarrow> AList.update k v al = al @ [(k, v)]"
  by (induction al) auto

lemma get_objects_fold_out:
  assumes "\<forall>p\<in>set ps. map_of s (fst p) = Some (snd p)" and "distinct (map fst ps)"
    and "fst ` set out \<inter> fst ` set ps = {}"
  shows "fold (\<lambda>key (out, s'). case getitem s' key of (t, s'') \<Rightarrow> (AList.update key t out, s''))
           (map fst ps) (out, s) = (out @ ps, s)"
  using assms
proof (induction ps arbitrary: out)
  case Nil
  show ?case by simp
next
  case (Cons p ps)
  obtain k t where p: "p = (k, t)" by fastforce
  from Cons.prems(1) p have g: "getitem s k = (t, s)" by (simp add: getitem_present)
  from Cons.prems(3) p have new: "k \<notin> fst ` set out" by auto
  have a: "\<forall>p\<in>set ps. map_of s (fst p) = Some (snd p)" using Cons.prems(1) by simp
  have b: "distinct (map fst ps)" using Cons.prems(2) by simp
  have c: "fst ` set (out @ [(k, t)]) \<inter> fst ` set ps = {}"
    using Cons.prems(2,3) p by auto
  from Cons.IH[OF a b c] show ?case
    by (simp add: p g update_append_new[OF new])
qed

lemma get_objects_keys:
  assumes "distinct (map fst s)"
  shows "filter (\<lambda>x. case map_of s x of Some t \<Rightarrow> FRAMES_COUNT cfg < int (len t) | None \<Rightarrow> False)
           (map fst s)
         = map fst (filter (\<lambda>(k, t). FRAMES_COUNT cfg < int (len t)) s)"
proof -
  have "\<And>p. p \<in> set s \<Longrightarrow> map_of s (fst p) = Some (snd p)"
    using assms by (simp add: map_of_is_SomeI)
  then have "filter ((\<lambda>x. case map_of s x of Some t \<Rightarrow> FRAMES_COUNT cfg < int (len t) | None \<Rightarrow> False) \<circ> fst) s
           = filter (\<lambda>(k, t). FRAMES_COUNT cfg < int (len t)) s"
    by (intro filter_cong) (auto simp: case_prod_beta)
  then show ?thesis by (simp add: filter_map)
qed

lemma get_objects_filter:
  assumes "distinct (map fst s)"
  shows "get_objects cfg s = (filter (\<lambda>(k, t). FRAMES_COUNT cfg < int (len t)) s, s)"
proof -
  let ?ps = "filter (\<lambda>(k, t). FRAMES_COUNT cfg < int (len t)) s"
  have a: "\<forall>p\<in>set ?ps. map_of s (fst p) = Some (snd p)"
    using assms by (simp add: map_of_is_SomeI)
  have b: "distinct (map fst ?ps)" using assms by (rule distinct_map_filter)
  have c: "fst ` set [] \<inter> fst ` set ?ps = {}" by simp
  from get_objects_fold_out[OF a b c] show ?thesis
    unfolding get_objects_def Let_def get_objects_keys[OF assms] by simp
qed

lemma process_events_distinct:
  "distinct (map fst (tracked_objects w)) \<Longrightarrow>
   distinct (map fst (tracked_objects (snd (process_events cfg clk frame nms evs w))))"
proof (induction evs arbitrary: w)
  case Nil
  then show ?case by simp
next
  case (Cons ev evs)
  obtain exc w' where pe: "process_event cfg clk frame nms ev w = (exc, w')" by fastforce
  have d: "distinct (map fst (tracked_objects w'))" by (rule process_event_distinct[OF pe Cons.prems])
  show ?case
  proof (cases exc)
    case None
    with pe Cons.IH[OF d] show ?thesis by simp
  next
    case (Some e)
    with pe d show ?thesis by simp
  qed
qed

lemma step_distinct:
  assumes "distinct (map fst (tracked_objects w))"
  shows "distinct (map fst (tracked_objects (step cfg clk c w)))"
proof (cases c)
  case (Frame frame res)
  with assms process_events_distinct[OF assms] show ?thesis
    by (simp add: track_next_frame_def split: option.splits)
next
  case Query
  with assms show ?thesis by (simp add: get_objects_store)
qed

lemma run_distinct: "distinct (map fst (tracked_objects (run cfg clk calls)))"
proof (induction calls rule: rev_induct)
  case Nil
  show ?case by (simp add: run_def Tracker_init_def)
next
  case (snoc c calls)
  then show ?case unfolding run_snoc by (rule step_distinct)
qed

text \<open>
  C5. On a store (a dictionary: no key twice) \<open>get_objects\<close> returns exactly the entries
  whose observation count \<open>len\<close> is greater than \<open>FRAMES_COUNT\<close>, in the store's
  order, and leaves the store as it was; with the default threshold 10 a record with 10
  observations is left out and one with 11 is returned.
\<close>

theorem get_objects_exactly:
  assumes "distinct (map fst s)"
  shows "get_objects cfg s = (filter (\<lambda>(k, t). FRAMES_COUNT cfg < int (len t)) s, s)
       \<and> (\<forall>k t. (k, t) \<in> set s \<and> len t = 10 \<longrightarrow> (k, t) \<notin> set (fst (get_objects default_config s)))
       \<and> (\<forall>k t. (k, t) \<in> set s \<and> len t = 11 \<longrightarrow> (k, t) \<in> set (fst (get_objects default_config s)))"
  by (simp add: get_objects_filter[OF assms] default_config_def)

theorem get_objects_exactly_witness:
  "distinct (map fst (tracked_objects (run default_config clock0 (replicate 11 (Frame frame0 car_results)))))
   \<and> map fst (fst (get_objects default_config
        (tracked_objects (run default_config clock0 (replicate 11 (Frame frame0 car_results)))))) = [1]
   \<and> snd (get_objects default_config
        (tracked_objects (run default_config clock0 (replicate 11 (Frame frame0 car_results)))))
      = tracked_objects (run default_config clock0 (replicate 11 (Frame frame0 car_results)))
   \<and> fst (get_objects default_config
        (tracked_objects (run default_config clock0 (replicate 10 (Frame frame0 car_results))))) = []
   \<and> obs_count (run default_config clock0 (replicate 11 (Frame frame0 car_results))) 1 = 11
   \<and> obs_count (run default_config clock0 (replicate 10 (Frame frame0 car_results))) 1 = 10"
proof -
  let ?a = "tracked_objects (run default_config clock0 (replicate 11 (Frame frame0 car_results)))"
  let ?b = "tracked_objects (run default_config clock0 (replicate 10 (Frame frame0 car_results)))"
  have e: "replicate 11 (Frame frame0 car_results) = replicate (Suc 10) (Frame frame0 car_results)"
    "replicate 10 (Frame frame0 car_results) = replicate (Suc 9) (Frame frame0 car_results)"
    by simp_all
  have da: "distinct (map fst ?a)" and db: "distinct (map fst ?b)" by (rule run_distinct)+
  from get_objects_exactly[OF da, of default_config] get_objects_exactly[OF db, of default_config] da
  show ?thesis
    unfolding e car_run by (simp add: len_def default_config_def obs_count_def)
qed

section \<open>First and last detection\<close>

lemma observe_times:
  assumes "observe cfg clk n frame nms b t = (exc, t', n')"
  shows "case first_detection t of
           None \<Rightarrow> first_detection t' = Some (strftime (clk n))
                    \<and> last_detection t' = Some (strftime (clk (Suc n))) \<and> n' = Suc (Suc n)
         | Some f \<Rightarrow> first_detection t' = Some f
                    \<and> last_detection t' = Some (strftime (clk n)) \<and> n' = Suc n"
  using assms
  by (auto simp: observe_def detect_def points_setter_def Let_def
      split: prod.splits option.splits sum.splits if_splits list.splits)

lemma run_times:
  "records_sat (\<lambda>n t. \<exists>i j. i \<le> j \<and> j < n \<and> first_detection t = Some (strftime (clk i))
                          \<and> last_detection t = Some (strftime (clk j)))
     (run cfg clk calls)"
proof (rule records_sat_run)
  fix n frame nms b t exc t' n'
  assume t: "(\<exists>i j. i \<le> j \<and> j < n \<and> first_detection t = Some (strftime (clk i))
                \<and> last_detection t = Some (strftime (clk j))) \<or> t = TrackedObject_init"
    and ob: "observe cfg clk n frame nms b t = (exc, t', n')"
  show "\<exists>i j. i \<le> j \<and> j < n' \<and> first_detection t' = Some (strftime (clk i))
              \<and> last_detection t' = Some (strftime (clk j))"
  proof (rule disjE[OF t])
    assume "t = TrackedObject_init"
    with observe_times[OF ob] have "first_detection t' = Some (strftime (clk n))"
      "last_detection t' = Some (strftime (clk (Suc n)))" "n' = Suc (Suc n)"
      by (simp_all add: TrackedObject_init_def)
    then show ?thesis by (intro exI[of _ n] exI[of _ "Suc n"]) simp
  next
    assume "\<exists>i j. i \<le> j \<and> j < n \<and> first_detection t = Some (strftime (clk i))
                \<and> last_detection t = Some (strftime (clk j))"
    then obtain i j where ij: "i \<le> j" "j < n" "first_detection t = Some (strftime (clk i))" by blast
    with observe_times[OF ob] have "first_detection t' = Some (strftime (clk i))"
      "last_detection t' = Some (strftime (clk n))" "n' = Suc n"
      by simp_all
    with ij show ?thesis by (intro exI[of _ i] exI[of _ n]) simp
  qed
next
  fix n n' :: nat and t
  assume "\<exists>i j. i \<le> j \<and> j < n \<and> first_detection t = Some (strftime (clk i))
                \<and> last_detection t = Some (strftime (clk j))" and "n \<le> n'"
  then show "\<exists>i j. i \<le> j \<and> j < n' \<and> first_detection t = Some (strftime (clk i))
                \<and> last_detection t = Some (strftime (clk j))"
    by (meson less_le_trans)
qed

lemma run_first_detection_kept:
  assumes "map_of (tracked_objects (run cfg clk calls)) k = Some t"
  shows "\<exists>t'. map_of (tracked_objects (run cfg clk (calls @ later))) k = Some t'
            \<and> (first_detection t \<noteq> None \<longrightarrow> first_detection t' = first_detection t)"
proof (rule run_related[where R = "\<lambda>t t'. first_detection t \<noteq> None \<longrightarrow> first_detection t' = first_detection t", OF _ _ _ assms])
  show "\<forall>n frame nms b t exc t' n'. observe cfg clk n frame nms b t = (exc, t', n')
          \<longrightarrow> first_detection t \<noteq> None \<longrightarrow> first_detection t' = first_detection t"
    using observe_first_detection by fastforce
qed auto

lemma clock0_mono: "\<forall>i j. i \<le> j \<longrightarrow> dt_le (clock0 i) (clock0 j)"
  by (auto simp: dt_le_def clock0_def)

lemma second_clock_mono: "\<forall>i j. i \<le> j \<longrightarrow> dt_le (second_clock i) (second_clock j)"
  by (auto simp: dt_le_def second_clock_def min_def)

lemma strftime_second_clock:
  "n \<le> 59 \<Longrightarrow> strftime (second_clock n) = ''27.10.2024 12:00:'' @ pad2 n"
  by (simp add: strftime_def pad2_def pad4_def digit_def second_clock_def)

lemma car_run_clock:
  "run default_config clk (replicate (Suc n) (Frame frame0 car_results)) =
     \<lparr>tracked_objects =
        [(1, \<lparr>tracked_points = replicate (min (Suc n) 91) (1, 1),
               predicted_types = [(''car'', Suc n)],
               first_detection = Some (strftime (clk 0)),
               last_detection = Some (strftime (clk (Suc n))),
               cropped_frame = (if 11 < int (Suc n) then Some [[1, 2], [3, 4]] else None)\<rparr>)],
      now_calls = Suc (Suc n)\<rparr>"
proof -
  have a: "boxes car_results = [car_box]" "boxes_id car_results = Some [1]" "names car_results \<noteq> []"
    by (simp_all add: car_results_def coco_names_def)
  have b: "map_of (names car_results) (cls car_box) = Some ''car''"
    by (simp add: car_results_def coco_names_def car_box_def)
  have c: "0 \<le> MAX_POINTS default_config" by (simp add: default_config_def)
  have crop: "crop_image_with_bbox frame0 (xywhn car_box) = [[1, 2], [3, 4]]"
    by (simp add: crop_image_with_bbox_def crop_rect_def py_int_def py_slice_def slice_index_def
        image_width_def frame0_def car_box_def)
  show ?thesis
    unfolding solo_run[OF a b c] crop
    by (simp add: default_config_def car_box_def)
qed

lemma run_query_between:
  "run cfg clk (xs @ [Query] @ ys) = run cfg clk (xs @ ys)"
  by (simp add: run_def get_objects_store)

lemma process_event_first_observation:
  assumes "map_of (tracked_objects w) k = None"
    and "process_event cfg clk frame nms (b, k) w = (exc, w')"
  shows "\<exists>t'. map_of (tracked_objects w') k = Some t'
            \<and> first_detection t' = Some (strftime (clk (now_calls w)))
            \<and> last_detection t' = Some (strftime (clk (Suc (now_calls w))))"
proof -
  from process_event_map[OF assms(2)] assms(1) obtain t' where
    ob: "observe cfg clk (now_calls w) frame nms b TrackedObject_init = (exc, t', now_calls w')"
    and m: "map_of (tracked_objects w') k = Some t'"
    by (auto simp: getitem_fst)
  from observe_times[OF ob] m show ?thesis by (simp add: TrackedObject_init_def)
qed

text \<open>
  C6, as the code has it. A stored record's \<open>first_detection\<close> is a clock reading, the
  one taken when its identity is first observed, and no later call changes it, whatever
  the clock does; \<open>last_detection\<close> is a reading taken after it. So the first detection
  is not later than the last one whenever the readings of the clock do not decrease.
\<close>

theorem first_detection_once_and_ordered:
  assumes t: "map_of (tracked_objects (run cfg clk calls)) k = Some t"
  shows "(\<exists>i j. i \<le> j \<and> first_detection t = Some (strftime (clk i))
                \<and> last_detection t = Some (strftime (clk j))
                \<and> ((\<forall>a b. a \<le> b \<longrightarrow> dt_le (clk a) (clk b)) \<longrightarrow> dt_le (clk i) (clk j)))
       \<and> (\<forall>later. \<exists>t'. map_of (tracked_objects (run cfg clk (calls @ later))) k = Some t'
                \<and> first_detection t' = first_detection t)
       \<and> (\<forall>frame nms b k' exc w'.
             map_of (tracked_objects (run cfg clk calls)) k' = None
             \<and> process_event cfg clk frame nms (b, k') (run cfg clk calls) = (exc, w')
             \<longrightarrow> (\<exists>t'. map_of (tracked_objects w') k' = Some t'
                    \<and> first_detection t' = Some (strftime (clk (now_calls (run cfg clk calls))))))"
proof -
  from run_times[of clk cfg calls] t obtain i j where
    ij: "i \<le> j" "first_detection t = Some (strftime (clk i))" "last_detection t = Some (strftime (clk j))"
    unfolding records_sat_def by blast
  then have a: "\<exists>i j. i \<le> j \<and> first_detection t = Some (strftime (clk i))
                \<and> last_detection t = Some (strftime (clk j))
                \<and> ((\<forall>a b. a \<le> b \<longrightarrow> dt_le (clk a) (clk b)) \<longrightarrow> dt_le (clk i) (clk j))"
    by blast
  have b: "\<exists>t'. map_of (tracked_objects (run cfg clk (calls @ later))) k = Some t'
                \<and> first_detection t' = first_detection t" for later
    using run_first_detection_kept[OF t, of later] ij(2) by auto
  have c: "\<exists>t'. map_of (tracked_objects w') k' = Some t'
                \<and> first_detection t' = Some (strftime (clk (now_calls (run cfg clk calls))))"
    if "map_of (tracked_objects (run cfg clk calls)) k' = None"
      and "process_event cfg clk frame nms (b, k') (run cfg clk calls) = (exc, w')"
    for frame nms b k' exc w'
    using process_event_first_observation[OF that] by blast
  from a b c show ?thesis by blast
qed

theorem first_detection_once_and_ordered_witness:
  "map_option first_detection
     (map_of (tracked_objects (run default_config second_clock [Frame frame0 car_results])) 1)
     = Some (Some ''27.10.2024 12:00:00'')
   \<and> map_option last_detection
     (map_of (tracked_objects (run default_config second_clock [Frame frame0 car_results])) 1)
     = Some (Some ''27.10.2024 12:00:01'')
   \<and> dt_le (second_clock 0) (second_clock 1)
   \<and> map_option first_detection
     (map_of (tracked_objects (run default_config second_clock
        ([Frame frame0 car_results] @ [Frame frame0 car_results, Query, Frame frame0 car_results]))) 1)
     = Some (Some ''27.10.2024 12:00:00'')
   \<and> map_option last_detection
     (map_of (tracked_objects (run default_config second_clock
        ([Frame frame0 car_results] @ [Frame frame0 car_results, Query, Frame frame0 car_results]))) 1)
     = Some (Some ''27.10.2024 12:00:03'')
   \<and> map_option first_detection
     (map_of (tracked_objects (snd (process_event default_config second_clock frame0 coco_names
        (car_box, 2) (run default_config second_clock [Frame frame0 car_results])))) 2)
     = Some (Some ''27.10.2024 12:00:02'')"
proof -
  let ?F = "Frame frame0 car_results"
  let ?w = "run default_config second_clock [?F]"
  let ?t = "\<lparr>tracked_points = [(1, 1)], predicted_types = [(''car'', 1)],
             first_detection = Some (strftime (second_clock 0)),
             last_detection = Some (strftime (second_clock 1)),
             cropped_frame = None\<rparr>"
  let ?later = "[?F, Query, ?F]"
  have w: "?w = \<lparr>tracked_objects = [(1, ?t)], now_calls = 2\<rparr>"
    using car_run_clock[of second_clock 0] by (simp add: numeral_2_eq_2)
  have t: "map_of (tracked_objects ?w) 1 = Some ?t" by (simp add: w)
  have s: "strftime (second_clock 0) = ''27.10.2024 12:00:00''"
    "strftime (second_clock 1) = ''27.10.2024 12:00:01''"
    "strftime (second_clock 2) = ''27.10.2024 12:00:02''"
    "strftime (second_clock 3) = ''27.10.2024 12:00:03''"
    "strftime (second_clock (Suc 0)) = ''27.10.2024 12:00:01''"
    by (simp_all add: strftime_second_clock pad2_def digit_def)
  have e: "[?F] @ ?later = [?F, ?F] @ [Query] @ [?F]" by simp
  have three: "[?F, ?F] @ [?F] = replicate (Suc 2) ?F" by (simp add: numeral_2_eq_2)
  have final: "run default_config second_clock ([?F] @ ?later)
        = run default_config second_clock (replicate (Suc 2) ?F)"
    unfolding e run_query_between three ..
  note inst = first_detection_once_and_ordered[OF t]
  from inst obtain i j where "i \<le> j"
    "(\<forall>a b. a \<le> b \<longrightarrow> dt_le (second_clock a) (second_clock b))
       \<longrightarrow> dt_le (second_clock i) (second_clock j)" by blast
  from inst obtain t' where t': "map_of (tracked_objects (run default_config second_clock ([?F] @ ?later))) 1 = Some t'"
    "first_detection t' = first_detection ?t"
    by blast
  then have kept: "map_option first_detection
     (map_of (tracked_objects (run default_config second_clock ([?F] @ ?later))) 1)
     = Some (Some ''27.10.2024 12:00:00'')" by (simp add: s)
  have last: "map_option last_detection
     (map_of (tracked_objects (run default_config second_clock ([?F] @ ?later))) 1)
     = Some (Some ''27.10.2024 12:00:03'')"
    unfolding final car_run_clock by (simp add: s)
  have absent: "map_of (tracked_objects ?w) 2 = None" by (simp add: w)
  obtain exc w' where pe: "process_event default_config second_clock frame0 coco_names (car_box, 2) ?w = (exc, w')"
    by fastforce
  from inst absent pe obtain t2 where "map_of (tracked_objects w') 2 = Some t2"
    "first_detection t2 = Some (strftime (second_clock (now_calls ?w)))"
    by blast
  with pe have new: "map_option first_detection
     (map_of (tracked_objects (snd (process_event default_config second_clock frame0 coco_names
        (car_box, 2) ?w))) 2) = Some (Some ''27.10.2024 12:00:02'')"
    by (simp add: w s)
  have mono: "dt_le (second_clock 0) (second_clock 1)" using second_clock_mono by simp
  have first1: "map_option first_detection (map_of (tracked_objects ?w) 1)
      = Some (Some ''27.10.2024 12:00:00'')" by (simp add: w s)
  have last1: "map_option last_detection (map_of (tracked_objects ?w) 1)
      = Some (Some ''27.10.2024 12:00:01'')" by (simp add: w s)
  from first1 last1 mono kept last new show ?thesis by blast
qed

text \<open>
  C6 as stated fails: \<open>datetime.now()\<close> is the local wall clock. A track first seen at
  02:59:59 and seen again after the clock was set back to 02:00:00 has a first detection
  later than its last detection, as instants and as the stored strings.
\<close>

theorem first_seen_after_last_seen:
  "map_option first_detection
     (map_of (tracked_objects (run default_config dst_clock
        [Frame frame0 car_results, Frame frame0 car_results])) 1)
     = Some (Some ''27.10.2024 02:59:59'')
   \<and> map_option last_detection
     (map_of (tracked_objects (run default_config dst_clock
        [Frame frame0 car_results, Frame frame0 car_results])) 1)
     = Some (Some ''27.10.2024 02:00:00'')
   \<and> \<not> ''27.10.2024 02:59:59'' \<le> ''27.10.2024 02:00:00''
   \<and> \<not> dt_le (dst_clock 0) (dst_clock 2)"
proof -
  have a: "boxes car_results = [car_box]" "boxes_id car_results = Some [1]" "names car_results \<noteq> []"
    by (simp_all add: car_results_def coco_names_def)
  have b: "map_of (names car_results) (cls car_box) = Some ''car''"
    by (simp add: car_results_def coco_names_def car_box_def)
  have c: "0 \<le> MAX_POINTS default_config" by (simp add: default_config_def)
  have e: "[Frame frame0 car_results, Frame frame0 car_results]
           = replicate (Suc 1) (Frame frame0 car_results)"
    by (simp add: numeral_2_eq_2)
  have s: "strftime (dst_clock 0) = ''27.10.2024 02:59:59''"
    "strftime (dst_clock (Suc (Suc 0))) = ''27.10.2024 02:00:00''"
    by (simp_all add: strftime_def pad2_def pad4_def digit_def dst_clock_def)
  have d: "\<not> dt_le (dst_clock 0) (dst_clock 2)" by (simp add: dt_le_def dst_clock_def)
  show ?thesis
    unfolding e solo_run[OF a b c] using d by (simp add: s)
qed

section \<open>Fetching and re-observing a record\<close>

lemma observe_votes_kept:
  assumes "observe cfg clk n frame nms b t = (exc, t', n')"
  shows "dict_count (predicted_types t) l \<le> dict_count (predicted_types t') l"
proof -
  from assms have "predicted_types t' = predicted_types t
      \<or> (\<exists>label. predicted_types t' = dict_incr (predicted_types t) label)"
    by (auto simp: observe_def detect_def points_setter_def Let_def
        split: prod.splits option.splits sum.splits if_splits list.splits)
  then show ?thesis by (auto simp: dict_count_incr)
qed

lemma step_keeps_keys:
  "fst ` set (tracked_objects w) \<subseteq> fst ` set (tracked_objects (step cfg clk c w))"
proof
  fix k assume "k \<in> fst ` set (tracked_objects w)"
  then obtain t where t: "map_of (tracked_objects w) k = Some t"
    by (metis domD dom_map_of_conv_image_fst)
  have "\<exists>t'. map_of (tracked_objects (step cfg clk c w)) k = Some t' \<and> True"
    by (rule step_related[where R = "\<lambda>_ _. True", OF _ _ _ t]) simp_all
  then show "k \<in> fst ` set (tracked_objects (step cfg clk c w))"
    by (metis domI dom_map_of_conv_image_fst)
qed

text \<open>
  C9. Fetching the record of an identity that has none inserts and returns a fresh record
  (no points, no votes, observation count 0, no snapshot) and cannot fail; fetching a
  present identity returns its record and leaves the store alone. The query leaves the
  store alone too, so an event for a present identity, also after a query, is applied to
  the stored record itself: its first detection stays, its last detection becomes the
  clock reading of this event, no vote count drops, and when the event is processed the
  label's vote is added to the old ledger and the point is appended to the old points
  (less the oldest one beyond the capacity). No call removes a key.
\<close>

theorem getitem_fetch_or_create:
  "(map_of s k = None \<longrightarrow> getitem s k = (TrackedObject_init, s @ [(k, TrackedObject_init)]))
   \<and> tracked_points TrackedObject_init = [] \<and> predicted_types TrackedObject_init = []
   \<and> len TrackedObject_init = 0 \<and> cropped_frame TrackedObject_init = None
   \<and> (\<forall>t. map_of s k = Some t \<longrightarrow> getitem s k = (t, s))
   \<and> snd (get_objects cfg s) = s \<and> step cfg clk Query w = w
   \<and> (\<forall>t exc w'. map_of (tracked_objects w) k = Some t
          \<and> process_event cfg clk frame nms (b, k) w = (exc, w')
        \<longrightarrow> (\<exists>t'. map_of (tracked_objects w') k = Some t'
               \<and> observe cfg clk (now_calls w) frame nms b t = (exc, t', now_calls w')
               \<and> (first_detection t \<noteq> None \<longrightarrow> first_detection t' = first_detection t)
               \<and> (case first_detection t of
                     None \<Rightarrow> first_detection t' = Some (strftime (clk (now_calls w)))
                              \<and> last_detection t' = Some (strftime (clk (Suc (now_calls w))))
                              \<and> now_calls w' = Suc (Suc (now_calls w))
                   | Some f \<Rightarrow> first_detection t' = Some f
                              \<and> last_detection t' = Some (strftime (clk (now_calls w)))
                              \<and> now_calls w' = Suc (now_calls w))
               \<and> (\<forall>l. dict_count (predicted_types t) l \<le> dict_count (predicted_types t') l)
               \<and> (exc = None \<longrightarrow>
                    (\<exists>label. map_of nms (cls b) = Some label
                       \<and> predicted_types t' = dict_incr (predicted_types t) label)
                    \<and> tracked_points t' =
                        (if MAX_POINTS cfg < int (length (tracked_points t))
                         then tl (tracked_points t) else tracked_points t)
                        @ [(fst (xywh b), fst (snd (xywh b)))])))
   \<and> (\<forall>c. fst ` set (tracked_objects w) \<subseteq> fst ` set (tracked_objects (step cfg clk c w)))"
proof -
  have ev: "\<exists>t'. map_of (tracked_objects w') k = Some t'
               \<and> observe cfg clk (now_calls w) frame nms b t = (exc, t', now_calls w')
               \<and> (first_detection t \<noteq> None \<longrightarrow> first_detection t' = first_detection t)
               \<and> (case first_detection t of
                     None \<Rightarrow> first_detection t' = Some (strftime (clk (now_calls w)))
                              \<and> last_detection t' = Some (strftime (clk (Suc (now_calls w))))
                              \<and> now_calls w' = Suc (Suc (now_calls w))
                   | Some f \<Rightarrow> first_detection t' = Some f
                              \<and> last_detection t' = Some (strftime (clk (now_calls w)))
                              \<and> now_calls w' = Suc (now_calls w))
               \<and> (\<forall>l. dict_count (predicted_types t) l \<le> dict_count (predicted_types t') l)
               \<and> (exc = None \<longrightarrow>
                    (\<exists>label. map_of nms (cls b) = Some label
                       \<and> predicted_types t' = dict_incr (predicted_types t) label)
                    \<and> tracked_points t' =
                        (if MAX_POINTS cfg < int (length (tracked_points t))
                         then tl (tracked_points t) else tracked_points t)
                        @ [(fst (xywh b), fst (snd (xywh b)))])"
    if t: "map_of (tracked_objects w) k = Some t"
      and pe: "process_event cfg clk frame nms (b, k) w = (exc, w')" for t exc w'
  proof -
    from process_event_map[OF pe] t obtain t' where
      ob: "observe cfg clk (now_calls w) frame nms b t = (exc, t', now_calls w')"
      and m: "map_of (tracked_objects w') k = Some t'"
      by (auto simp: getitem_fst)
    have f: "first_detection t \<noteq> None \<longrightarrow> first_detection t' = first_detection t"
      using observe_first_detection[OF ob] by (auto split: option.splits)
    note tm = observe_times[OF ob]
    have v: "\<forall>l. dict_count (predicted_types t) l \<le> dict_count (predicted_types t') l"
      using observe_votes_kept[OF ob] by simp
    have ok: "exc = None \<longrightarrow>
                    (\<exists>label. map_of nms (cls b) = Some label
                       \<and> predicted_types t' = dict_incr (predicted_types t) label)
                    \<and> tracked_points t' =
                        (if MAX_POINTS cfg < int (length (tracked_points t))
                         then tl (tracked_points t) else tracked_points t)
                        @ [(fst (xywh b), fst (snd (xywh b)))]"
      using observe_ok[of cfg clk "now_calls w" frame nms b t t' "now_calls w'"] ob by blast
    from m ob f tm v ok show ?thesis by blast
  qed
  have q: "step cfg clk Query w = w" by (rule step_Query)
  have fresh: "tracked_points TrackedObject_init = [] \<and> predicted_types TrackedObject_init = []
     \<and> len TrackedObject_init = 0 \<and> cropped_frame TrackedObject_init = None"
    by (simp add: TrackedObject_init_def len_def)
  show ?thesis
    using ev q fresh step_keeps_keys[of w cfg clk]
    by (simp add: getitem_absent getitem_present get_objects_store)
qed

theorem getitem_fetch_or_create_witness:
  "getitem [] 1 = (TrackedObject_init, [(1, TrackedObject_init)])
   \<and> map_of (tracked_objects (run default_config second_clock
           (replicate 11 (Frame frame0 car_results)))) 1
      = Some \<lparr>tracked_points = replicate 11 (1, 1), predicted_types = [(''car'', 11)],
               first_detection = Some ''27.10.2024 12:00:00'',
               last_detection = Some ''27.10.2024 12:00:11'',
               cropped_frame = None\<rparr>
   \<and> map fst (fst (get_objects default_config (tracked_objects (run default_config second_clock
           (replicate 11 (Frame frame0 car_results)))))) = [1]
   \<and> map_of (tracked_objects (snd (process_event default_config second_clock frame0 coco_names
           (car_box, 1)
           (step default_config second_clock Query
              (run default_config second_clock (replicate 11 (Frame frame0 car_results))))))) 1
      = Some \<lparr>tracked_points = replicate 12 (1, 1), predicted_types = [(''car'', 12)],
               first_detection = Some ''27.10.2024 12:00:00'',
               last_detection = Some ''27.10.2024 12:00:12'',
               cropped_frame = Some [[1, 2], [3, 4]]\<rparr>"
proof -
  let ?w = "run default_config second_clock (replicate 11 (Frame frame0 car_results))"
  let ?t = "\<lparr>tracked_points = replicate 11 (1, 1), predicted_types = [(''car'', 11)],
             first_detection = Some ''27.10.2024 12:00:00'',
             last_detection = Some ''27.10.2024 12:00:11'',
             cropped_frame = None\<rparr>"
  have s: "strftime (second_clock 0) = ''27.10.2024 12:00:00''"
    "strftime (second_clock 11) = ''27.10.2024 12:00:11''"
    "strftime (second_clock 12) = ''27.10.2024 12:00:12''"
    by (simp_all add: strftime_second_clock pad2_def digit_def)
  have e: "replicate 11 (Frame frame0 car_results) = replicate (Suc 10) (Frame frame0 car_results)"
    by simp
  have w: "?w = \<lparr>tracked_objects = [(1, ?t)], now_calls = 12\<rparr>"
    unfolding e car_run_clock by (simp add: s)
  have t: "map_of (tracked_objects ?w) 1 = Some ?t" by (simp add: w)
  have lab: "map_of coco_names (cls car_box) = Some ''car''"
    by (simp add: coco_names_def car_box_def)
  obtain exc w' where pe: "process_event default_config second_clock frame0 coco_names (car_box, 1) ?w = (exc, w')"
    by fastforce
  have mp: "0 \<le> MAX_POINTS default_config" by (simp add: default_config_def)
  from process_event_total[OF mp lab, of second_clock frame0 1 ?w] pe have exc: "exc = None" by simp
  note inst = getitem_fetch_or_create[of "[]" 1 default_config second_clock ?w frame0 coco_names car_box]
  from inst have g: "getitem [] 1 = (TrackedObject_init, [(1, TrackedObject_init)])" by simp
  from inst have q: "step default_config second_clock Query ?w = ?w" by blast
  from inst t pe exc obtain t' label where t':
    "map_of (tracked_objects w') 1 = Some t'"
    "observe default_config second_clock (now_calls ?w) frame0 coco_names car_box ?t = (exc, t', now_calls w')"
    "case first_detection ?t of
       None \<Rightarrow> first_detection t' = Some (strftime (second_clock (now_calls ?w)))
                \<and> last_detection t' = Some (strftime (second_clock (Suc (now_calls ?w))))
                \<and> now_calls w' = Suc (Suc (now_calls ?w))
     | Some f \<Rightarrow> first_detection t' = Some f
                \<and> last_detection t' = Some (strftime (second_clock (now_calls ?w)))
                \<and> now_calls w' = Suc (now_calls ?w)"
    "map_of coco_names (cls car_box) = Some label"
    "predicted_types t' = dict_incr (predicted_types ?t) label"
    "tracked_points t' =
       (if MAX_POINTS default_config < int (length (tracked_points ?t))
        then tl (tracked_points ?t) else tracked_points ?t)
       @ [(fst (xywh car_box), fst (snd (xywh car_box)))]"
    by blast
  have crop: "crop_image_with_bbox frame0 (xywhn car_box) = [[1, 2], [3, 4]]"
    by (simp add: crop_image_with_bbox_def crop_rect_def py_int_def py_slice_def slice_index_def
        image_width_def frame0_def car_box_def)
  have c: "cropped_frame t' = Some [[1, 2], [3, 4]]"
    using observe_cropped_frame[OF t'(2)] crop by (simp add: len_def default_config_def)
  have f: "first_detection t' = Some ''27.10.2024 12:00:00''"
    and l: "last_detection t' = Some ''27.10.2024 12:00:12''"
    using t'(3) by (simp_all add: w s)
  have v: "predicted_types t' = [(''car'', 12)]" using t'(4,5) lab by simp
  have twelve: "replicate 12 (1 :: real, 1 :: real) = (1, 1) # replicate 11 (1, 1)"
    using replicate_Suc[of 11 "(1 :: real, 1 :: real)"] by simp
  have p: "tracked_points t' = replicate 12 (1, 1)"
    using t'(6) by (simp add: default_config_def car_box_def replicate_append_same twelve)
  have "t' = \<lparr>tracked_points = replicate 12 (1, 1), predicted_types = [(''car'', 12)],
               first_detection = Some ''27.10.2024 12:00:00'',
               last_detection = Some ''27.10.2024 12:00:12'',
               cropped_frame = Some [[1, 2], [3, 4]]\<rparr>"
    using c f l v p by (cases t') simp
  with t'(1) pe have after: "map_of (tracked_objects (snd (process_event default_config second_clock
      frame0 coco_names (car_box, 1) ?w))) 1
      = Some \<lparr>tracked_points = replicate 12 (1, 1), predicted_types = [(''car'', 12)],
               first_detection = Some ''27.10.2024 12:00:00'',
               last_detection = Some ''27.10.2024 12:00:12'',
               cropped_frame = Some [[1, 2], [3, 4]]\<rparr>" by simp
  have r: "map fst (fst (get_objects default_config (tracked_objects ?w))) = [1]"
    unfolding w by (simp add: get_objects_def getitem_def len_def default_config_def)
  from g t r after show ?thesis unfolding q by blast
qed

end
